theory Spec2Isabelle
  imports Complex_Main
begin

section \<open>Python values used by summarize_invoices.py\<close>

text \<open>
  A Python \<open>str\<close> is a sequence of Unicode code points; a character is modelled by its
  code point. Literals of the source are written \<open>str ''...''\<close>; the euro sign is the
  code point 8364 (U+20AC).
\<close>

type_synonym pychar = nat
type_synonym pystr = "pychar list"

abbreviation str :: "string \<Rightarrow> pystr" where
  "str s \<equiv> map of_char s"

definition euro :: pychar where
  "euro = 8364"

text \<open>
  The exceptions the modelled functions can raise. \<open>ValueError\<close> is always caught by the
  source and never leaves a function; it is a branch (\<open>None\<close>) of the parsers below.
\<close>

datatype py_error = AttributeError | IndexError | EOFError

text \<open>
  \<open>is_space\<close> is the whitespace class of \<open>str.strip\<close>, \<open>int\<close>, \<open>float\<close> and of \<open>\s\<close> in
  a \<open>str\<close> pattern. \<open>is_digit\<close> is the class \<open>\d\<close>, here the ASCII digits: decimal
  digits of other scripts (Unicode category Nd) are outside the modelled texts.
\<close>

definition is_space :: "pychar \<Rightarrow> bool" where
  "is_space c \<longleftrightarrow>
     (9 \<le> c \<and> c \<le> 13) \<or> (28 \<le> c \<and> c \<le> 32) \<or> c = 133 \<or> c = 160 \<or> c = 5760 \<or>
     (8192 \<le> c \<and> c \<le> 8202) \<or> c = 8232 \<or> c = 8233 \<or> c = 8239 \<or> c = 8287 \<or> c = 12288"

definition is_digit :: "pychar \<Rightarrow> bool" where
  "is_digit c \<longleftrightarrow> 48 \<le> c \<and> c \<le> 57"

definition py_lower :: "pychar \<Rightarrow> pychar" where
  "py_lower c = (if 65 \<le> c \<and> c \<le> 90 then c + 32 else c)"

text \<open>\<open>s.replace(old, new)\<close> for a one-character \<open>old\<close>.\<close>

definition replace :: "pychar \<Rightarrow> pystr \<Rightarrow> pystr \<Rightarrow> pystr" where
  "replace old new s = concat (map (\<lambda>c. if c = old then new else [c]) s)"

text \<open>\<open>sep.join(xs)\<close> on the ASCII texts of the notes.\<close>

fun join :: "string \<Rightarrow> string list \<Rightarrow> string" where
  "join sep [] = []"
| "join sep [x] = x"
| "join sep (x # y # zs) = x @ sep @ join sep (y # zs)"

text \<open>
  \<open>xs.sort(reverse=True)\<close>: a stable sort into descending order. Elements are inserted
  from the right end of the list, each in front of the first element that is not
  greater, so that equal elements keep their original order.
\<close>

fun insort_desc :: "'a::linorder \<Rightarrow> 'a list \<Rightarrow> 'a list" where
  "insort_desc x [] = [x]"
| "insort_desc x (y # ys) = (if y \<le> x then x # y # ys else y # insort_desc x ys)"

definition sort_reverse :: "'a::linorder list \<Rightarrow> 'a list" where
  "sort_reverse xs = foldr insort_desc xs []"

section \<open>Regular expressions\<close>

text \<open>
  The backtracking matcher of \<open>re\<close>, for the operators the pattern of
  \<open>analyze_invoice_text\<close> uses. \<open>rmatch r (s, g)\<close> lists every way \<open>r\<close> can match a prefix
  of \<open>s\<close>, in the order in which the backtracking engine tries them (greedy operators
  try the longer match first, an alternation its left branch first); each way is the
  rest of the text with the groups captured so far. The match \<open>re\<close> reports is the head
  of the list. A group that took no part in the match has no entry (\<open>None\<close> in Python).
\<close>

type_synonym groups = "(nat \<times> pystr) list"

datatype regex =
    Eps
  | Sym "pychar \<Rightarrow> bool"
  | Seq regex regex
  | Alt regex regex
  | Opt regex
  | Star regex
  | Grp nat regex

function rmatch :: "regex \<Rightarrow> pystr \<times> groups \<Rightarrow> (pystr \<times> groups) list" where
  "rmatch Eps st = [st]"
| "rmatch (Sym p) (s, g) = (case s of [] \<Rightarrow> [] | c # t \<Rightarrow> if p c then [(t, g)] else [])"
| "rmatch (Seq a b) st = concat (map (rmatch b) (rmatch a st))"
| "rmatch (Alt a b) st = rmatch a st @ rmatch b st"
| "rmatch (Opt a) st = rmatch a st @ [st]"
| "rmatch (Star a) st =
     concat (map (rmatch (Star a))
               (filter (\<lambda>st'. length (fst st') < length (fst st)) (rmatch a st))) @ [st]"
| "rmatch (Grp n a) (s, g) =
     map (\<lambda>(t, g'). (t, (n, take (length s - length t) s) # g')) (rmatch a (s, g))"
  by pat_completeness auto
termination
  by (relation "measures [\<lambda>(r, st). size r, \<lambda>(r, st). length (fst st)]") auto

text \<open>\<open>r{n}\<close> and the greedy \<open>r{lo,hi}\<close>.\<close>

fun rep_exact :: "nat \<Rightarrow> regex \<Rightarrow> regex" where
  "rep_exact 0 r = Eps"
| "rep_exact (Suc n) r = Seq r (rep_exact n r)"

fun rep_upto :: "nat \<Rightarrow> regex \<Rightarrow> regex" where
  "rep_upto 0 r = Eps"
| "rep_upto (Suc n) r = Opt (Seq r (rep_upto n r))"

definition rep :: "nat \<Rightarrow> nat \<Rightarrow> regex \<Rightarrow> regex" where
  "rep lo hi r = Seq (rep_exact lo r) (rep_upto (hi - lo) r)"

text \<open>A literal character under \<open>re.IGNORECASE\<close>, and a literal word.\<close>

definition lit :: "pychar \<Rightarrow> regex" where
  "lit x = Sym (\<lambda>c. py_lower c = py_lower x)"

fun word :: "pystr \<Rightarrow> regex" where
  "word [] = Eps"
| "word (x # xs) = Seq (lit x) (word xs)"

text \<open>
  \<open>pattern.finditer(content)\<close>: the matches from left to right, without overlap. The
  search for the next match starts where the last one ended. (The pattern of the source
  matches no empty text; after an empty match the scan of the model goes on one
  character further.)
\<close>

function finditer :: "regex \<Rightarrow> pystr \<Rightarrow> groups list" where
  "finditer r s =
     (case rmatch r (s, []) of
        [] \<Rightarrow> (case s of [] \<Rightarrow> [] | c # t \<Rightarrow> finditer r t)
      | (rest, g) # other \<Rightarrow>
          g # (if length rest < length s then finditer r rest
               else (case s of [] \<Rightarrow> [] | c # t \<Rightarrow> finditer r t)))"
  by pat_completeness auto
termination
  by (relation "measure (\<lambda>(r, s). length s)") auto

section \<open>The pattern of analyze_invoice_text (lines 112-118)\<close>

definition ws :: regex where
  "ws = Sym is_space"

definition digit :: regex where
  "digit = Sym is_digit"

definition is_sep :: "pychar \<Rightarrow> bool" where
  "is_sep c \<longleftrightarrow> c = of_char CHR ''.'' \<or> c = of_char CHR '',''"

definition sep :: regex where
  "sep = Sym is_sep"

text \<open>\<^verbatim>\<open>\d{1,3}(?:[.,]\d{3})*(?:[.,]\d{2})\<close>\<close>

definition number :: regex where
  "number = Seq (rep 1 3 digit) (Seq (Star (Seq sep (rep_exact 3 digit))) (Seq sep (rep_exact 2 digit)))"

text \<open>\<^verbatim>\<open>(?:E|EUR)\<close>, where \<open>E\<close> stands for the euro sign.\<close>

definition currency :: regex where
  "currency = Alt (lit euro) (word (str ''EUR''))"

text \<open>
  \<^verbatim>\<open>(-\s*)?(?:CUR\s*(NUMBER)|(NUMBER)\s*CUR)\<close>, with the groups 1 (sign),
  2 (number after the currency) and 3 (number before the currency).
\<close>

definition pattern :: regex where
  "pattern =
     Seq (Opt (Grp 1 (Seq (lit (of_char CHR ''-'')) (Star ws))))
         (Alt (Seq currency (Seq (Star ws) (Grp 2 number)))
              (Seq (Grp 3 number) (Seq (Star ws) currency)))"

text \<open>\<open>match.groups()\<close>, \<open>a or b\<close> on optional strings, and the truth value of one.\<close>

definition group :: "groups \<Rightarrow> nat \<Rightarrow> pystr option" where
  "group m n = map_of m n"

definition truthy :: "pystr option \<Rightarrow> bool" where
  "truthy a \<longleftrightarrow> (case a of None \<Rightarrow> False | Some s \<Rightarrow> s \<noteq> [])"

definition py_or :: "pystr option \<Rightarrow> pystr option \<Rightarrow> pystr option" where
  "py_or a b = (if truthy a then a else b)"

section \<open>Floats\<close>

text \<open>
  The amounts are Python floats. The float operations the source uses are parameters
  of the model, so that what is proved holds for the arithmetic of the interpreter:
  \<open>py_float\<close> is \<open>float(s)\<close> (\<open>None\<close> for \<open>ValueError\<close>), \<open>fsub\<close> is \<open>x - y\<close>, \<open>fsum\<close> is
  \<open>sum(xs)\<close>, \<open>round2\<close> is \<open>round(x, 2)\<close>, \<open>feq\<close> is \<open>x == y\<close> and \<open>fmt2\<close> is the format
  \<open>{x:.2f}\<close>. The type \<open>'a\<close> of the float values is linearly ordered by \<open><\<close>, which is how
  \<open>sort\<close> compares them (no NaN among the sorted values).
\<close>

record 'a float_ops =
  py_float :: "pystr \<Rightarrow> 'a option"
  fsub :: "'a \<Rightarrow> 'a \<Rightarrow> 'a"
  fsum :: "'a list \<Rightarrow> 'a"
  round2 :: "'a \<Rightarrow> 'a"
  feq :: "'a \<Rightarrow> 'a \<Rightarrow> bool"
  fmt2 :: "'a \<Rightarrow> string"

section \<open>analyze_invoice_text\<close>

datatype status = STATUS_OK | STATUS_APPLIED_DISCOUNT | STATUS_NEEDS_INTERACTION | STATUS_NO_AMOUNT

text \<open>
  The named tuple \<open>InvoiceData\<close>. Its field \<open>notes\<close> is \<open>notes_txt\<close> here, and the local lists
  \<open>positive_amounts\<close> and \<open>discounts\<close> of the source are \<open>positives\<close> and \<open>discs\<close>, since the
  names of the fields are taken.
\<close>

record 'a InvoiceData =
  total :: "'a option"
  notes_txt :: string
  status :: status
  positive_amounts :: "'a list"
  discounts :: "'a list"

text \<open>Line 124: \<open>num_str.replace('.', '').replace(',', '.')\<close>.\<close>

definition clean_num_str :: "pystr \<Rightarrow> pystr" where
  "clean_num_str num_str =
     replace (of_char CHR '','') (str ''.'') (replace (of_char CHR ''.'') [] num_str)"

text \<open>
  Lines 120-132, the loop over the matches. \<open>num_before or num_after\<close> is \<open>None\<close> when
  neither group took part in the match, and then \<open>num_str.replace\<close> raises
  \<open>AttributeError\<close>; a \<open>ValueError\<close> of \<open>float\<close> skips the match.
\<close>

fun extract_loop ::
  "'a float_ops \<Rightarrow> groups list \<Rightarrow> 'a list \<times> 'a list \<Rightarrow> py_error + 'a list \<times> 'a list" where
  "extract_loop fo [] acc = Inr acc"
| "extract_loop fo (m # ms) (positives, discs) =
     (let sign = group m 1; num_before = group m 2; num_after = group m 3 in
      case py_or num_before num_after of
        None \<Rightarrow> Inl AttributeError
      | Some num_str \<Rightarrow>
          (case py_float fo (clean_num_str num_str) of
             None \<Rightarrow> extract_loop fo ms (positives, discs)
           | Some amount \<Rightarrow>
               if truthy sign then extract_loop fo ms (positives, discs @ [amount])
               else extract_loop fo ms (positives @ [amount], discs)))"

text \<open>Lines 120-132: the two lists of amounts found in a text.\<close>

definition extract_amounts :: "'a float_ops \<Rightarrow> pystr \<Rightarrow> py_error + 'a list \<times> 'a list" where
  "extract_amounts fo content = extract_loop fo (finditer pattern content) ([], [])"

text \<open>The notes of lines 147 and 150.\<close>

definition discounts_found :: "'a float_ops \<Rightarrow> 'a list \<Rightarrow> string" where
  "discounts_found fo ds = ''Discounts found: '' @ join '', '' (map (\<lambda>d. ''-'' @ fmt2 fo d) ds)"

text \<open>
  Lines 134-151, the decision from the two lists of amounts. \<open>hd\<close> reads element 0 of a
  list that the tests before it have found non-empty, and \<open>x in xs\<close> of line 146 compares
  \<open>x\<close> with the elements by \<open>==\<close>.
\<close>

definition reconcile ::
  "('a::linorder) float_ops \<Rightarrow> 'a list \<Rightarrow> 'a list \<Rightarrow> 'a InvoiceData" where
  "reconcile fo positives0 discs0 =
     (if positives0 = [] then
        \<lparr>total = None, notes_txt = ''No amount found'', status = STATUS_NO_AMOUNT,
         positive_amounts = [], discounts = []\<rparr>
      else
        let positives = sort_reverse positives0;
            discs = sort_reverse discs0
        in if discs = [] then
             \<lparr>total = Some (hd positives), notes_txt = '''', status = STATUS_OK,
              positive_amounts = positives, discounts = discs\<rparr>
           else
             let main_total = hd positives;
                 calculated_total = round2 fo (fsub fo main_total (hd discs))
             in if list_ex (feq fo calculated_total) (map (round2 fo) positives) then
                  \<lparr>total = Some calculated_total,
                   notes_txt = discounts_found fo discs @ ''. Applied -'' @ fmt2 fo (hd discs) @ ''.'',
                   status = STATUS_APPLIED_DISCOUNT,
                   positive_amounts = positives, discounts = discs\<rparr>
                else
                  \<lparr>total = Some main_total,
                   notes_txt = discounts_found fo discs @ ''. WARNING: Could not automatically apply.'',
                   status = STATUS_NEEDS_INTERACTION,
                   positive_amounts = positives, discounts = discs\<rparr>)"

text \<open>Lines 110-151: the extraction, then the decision.\<close>

definition analyze_invoice_text ::
  "('a::linorder) float_ops \<Rightarrow> pystr \<Rightarrow> py_error + 'a InvoiceData" where
  "analyze_invoice_text fo content =
     (case extract_amounts fo content of
        Inl e \<Rightarrow> Inl e
      | Inr (positives, discs) \<Rightarrow> Inr (reconcile fo positives discs))"

section \<open>Operator input\<close>

text \<open>
  \<open>s.strip()\<close>, \<open>s.upper()\<close> and \<open>s.split(',')\<close>. Of \<open>upper\<close> the model keeps what decides
  the comparisons with \<open>'E'\<close> and \<open>'S'\<close>: the ASCII letters and the long s (U+017F), whose
  upper case is \<open>S\<close>. No other character has \<open>E\<close> or \<open>S\<close> as its upper case, and no upper
  case is a digit, a sign, a comma or a space.
\<close>

definition strip :: "pystr \<Rightarrow> pystr" where
  "strip s = rev (dropWhile is_space (rev (dropWhile is_space s)))"

definition py_upper :: "pychar \<Rightarrow> pychar" where
  "py_upper c = (if 97 \<le> c \<and> c \<le> 122 then c - 32 else if c = 383 then 83 else c)"

definition upper :: "pystr \<Rightarrow> pystr" where
  "upper s = map py_upper s"

fun split :: "pychar \<Rightarrow> pystr \<Rightarrow> pystr list" where
  "split x [] = [[]]"
| "split x (c # cs) =
     (if c = x then [] # split x cs
      else (case split x cs of [] \<Rightarrow> [[c]] | p # ps \<Rightarrow> (c # p) # ps))"

text \<open>
  \<open>int(s)\<close> in base 10, \<open>None\<close> for \<open>ValueError\<close>: blanks around, an optional sign, then
  digits, where single underscores may stand between two digits.
\<close>

fun digitpart :: "pystr \<Rightarrow> pystr option" where
  "digitpart [] = None"
| "digitpart (c # cs) =
     (if is_digit c then
        (case cs of
           [] \<Rightarrow> Some [c]
         | d # ds \<Rightarrow> map_option (Cons c) (digitpart (if d = of_char CHR ''_'' then ds else cs)))
      else None)"

definition digits_val :: "pystr \<Rightarrow> nat" where
  "digits_val ds = foldl (\<lambda>n c. 10 * n + (c - 48)) 0 ds"

definition signed :: "pystr \<Rightarrow> bool \<times> pystr" where
  "signed s =
     (case s of
        [] \<Rightarrow> (False, [])
      | c # t \<Rightarrow> if c = of_char CHR ''-'' then (True, t)
                 else if c = of_char CHR ''+'' then (False, t) else (False, s))"

definition py_int :: "pystr \<Rightarrow> int option" where
  "py_int s =
     (case signed (strip s) of
        (neg, t) \<Rightarrow> map_option (\<lambda>ds. if neg then - int (digits_val ds) else int (digits_val ds))
                      (digitpart t))"

section \<open>interactive_discount_resolver\<close>

text \<open>
  The operator's answers are the list \<open>inputs\<close>, one line for each call of \<open>input\<close>; a
  call with no line left raises \<open>EOFError\<close>, which the source does not catch. The
  messages printed and the opening of the PDF (lines 155-172) do not touch the result
  and are left out.
\<close>

text \<open>Line 203, \<open>None\<close> when some \<open>int\<close> raises \<open>ValueError\<close>.\<close>

definition parse_choices :: "pystr \<Rightarrow> int list option" where
  "parse_choices choice_str = those (map (\<lambda>c. py_int (strip c)) (split (of_char CHR '','') choice_str))"

text \<open>
  Lines 204-213: the loop over the choices, \<open>None\<close> when it finds an invalid choice
  (\<open>valid_choices = False\<close>), else the discounts selected.
\<close>

fun select_discounts :: "'a list \<Rightarrow> int list \<Rightarrow> 'a list \<Rightarrow> 'a list option" where
  "select_discounts discs [] selected_discounts_values = Some selected_discounts_values"
| "select_discounts discs (c # choices) selected_discounts_values =
     (if 1 \<le> c \<and> c \<le> int (length discs)
      then select_discounts discs choices (selected_discounts_values @ [discs ! nat (c - 1)])
      else None)"

text \<open>Lines 188-195, the loop of the manual entry.\<close>

fun manual_entry :: "'a float_ops \<Rightarrow> pystr list \<Rightarrow> py_error + 'a \<times> string" where
  "manual_entry fo [] = Inl EOFError"
| "manual_entry fo (line # inputs) =
     (case py_float fo line of
        None \<Rightarrow> manual_entry fo inputs
      | Some custom_total \<Rightarrow> Inr (custom_total, ''Manually entered total.''))"

text \<open>Lines 183-228, the loop of the dialogue.\<close>

fun resolver_loop ::
  "'a float_ops \<Rightarrow> 'a list \<Rightarrow> 'a list \<Rightarrow> pystr list \<Rightarrow> py_error + 'a \<times> string" where
  "resolver_loop fo positives discs [] = Inl EOFError"
| "resolver_loop fo positives discs (line # inputs) =
     (let choice_str = upper (strip line) in
      if choice_str = str ''E'' then manual_entry fo inputs
      else if choice_str = str ''S'' then
        Inr (hd positives, ''Skipped discount in interactive mode.'')
      else
        (case parse_choices choice_str of
           None \<Rightarrow> resolver_loop fo positives discs inputs
         | Some choices \<Rightarrow>
             (case select_discounts discs choices [] of
                None \<Rightarrow> resolver_loop fo positives discs inputs
              | Some selected_discounts_values \<Rightarrow>
                  if selected_discounts_values \<noteq> [] then
                    Inr (round2 fo (fsub fo (hd positives) (fsum fo selected_discounts_values)),
                         ''Manually applied discount(s) of '' @
                           join '', '' (map (fmt2 fo) selected_discounts_values) @ ''.'')
                  else resolver_loop fo positives discs inputs)))"

text \<open>Line 174 reads \<open>positive_amounts[0]\<close> before the dialogue starts.\<close>

definition interactive_discount_resolver ::
  "'a float_ops \<Rightarrow> 'a list \<Rightarrow> 'a list \<Rightarrow> pystr list \<Rightarrow> py_error + 'a \<times> string" where
  "interactive_discount_resolver fo positives discs inputs =
     (if positives = [] then Inl IndexError else resolver_loop fo positives discs inputs)"

text \<open>
  Lines 273-280 of \<open>main\<close>: the final total and note of one document, from its analysis
  and the operator's answers.
\<close>

definition final_result ::
  "'a float_ops \<Rightarrow> 'a InvoiceData \<Rightarrow> pystr list \<Rightarrow> py_error + 'a option \<times> string" where
  "final_result fo invoice_data inputs =
     (if status invoice_data = STATUS_NEEDS_INTERACTION then
        (case interactive_discount_resolver fo (positive_amounts invoice_data)
                (discounts invoice_data) inputs of
           Inl e \<Rightarrow> Inl e
         | Inr (new_total, new_notes) \<Rightarrow> Inr (Some new_total, new_notes))
      else Inr (total invoice_data, notes_txt invoice_data))"

section \<open>detect_and_handle_duplicates, lines 22-35\<close>

text \<open>
  The text directory is the list of its entries, each a file name with the bytes of the
  file, in the order of \<open>os.listdir\<close>. The digest \<open>hashlib.sha256(content).hexdigest()\<close>
  is the parameter \<open>sha256\<close>. The dictionary \<open>hashes\<close> is an association list in the order
  of insertion. What is modelled is the grouping (lines 22-31) and the test that selects
  the groups to report (lines 34-35). The dialogue with the operator about a selected
  group (lines 37-80), which can delete a PDF, ask again or end with \<open>EOFError\<close>, and the
  flag returned (line 82) are not modelled, and nothing below is stated about them.
\<close>

definition endswith :: "pystr \<Rightarrow> pystr \<Rightarrow> bool" where
  "endswith s suffix \<longleftrightarrow>
     length suffix \<le> length s \<and> drop (length s - length suffix) s = suffix"

text \<open>Lines 29-31.\<close>

fun add_hash :: "'h \<Rightarrow> pystr \<Rightarrow> ('h \<times> pystr list) list \<Rightarrow> ('h \<times> pystr list) list" where
  "add_hash file_hash filename [] = [(file_hash, [filename])]"
| "add_hash file_hash filename ((k, filenames) # hashes) =
     (if k = file_hash then (k, filenames @ [filename]) # hashes
      else (k, filenames) # add_hash file_hash filename hashes)"

text \<open>Lines 22-31.\<close>

fun build_hashes ::
  "('b \<Rightarrow> 'h) \<Rightarrow> (pystr \<times> 'b) list \<Rightarrow> ('h \<times> pystr list) list \<Rightarrow> ('h \<times> pystr list) list" where
  "build_hashes sha256 [] hashes = hashes"
| "build_hashes sha256 ((filename, content) # entries) hashes =
     (if endswith filename (str ''.txt'')
      then build_hashes sha256 entries (add_hash (sha256 content) filename hashes)
      else build_hashes sha256 entries hashes)"

text \<open>
  Lines 34-35: the groups that pass the test \<open>len(filenames) > 1\<close>, in the order of the
  loop. Only for these does the code print the report of lines 37-41.
\<close>

definition duplicate_groups :: "('b \<Rightarrow> 'h) \<Rightarrow> (pystr \<times> 'b) list \<Rightarrow> ('h \<times> pystr list) list" where
  "duplicate_groups sha256 entries =
     filter (\<lambda>(file_hash, filenames). length filenames > 1) (build_hashes sha256 entries [])"

text \<open>
  What a group should be, in the words of the specification: the documents (the entries
  named \<open>*.txt\<close>) whose bytes have the digest \<open>h\<close>, in the order of the directory. The
  groups that the code builds are compared with it below.
\<close>

definition documents_with_digest :: "('b \<Rightarrow> 'h) \<Rightarrow> (pystr \<times> 'b) list \<Rightarrow> 'h \<Rightarrow> pystr list" where
  "documents_with_digest sha256 entries h =
     map fst (filter (\<lambda>(n, c). endswith n (str ''.txt'') \<and> sha256 c = h) entries)"

section \<open>Exact decimal arithmetic\<close>

text \<open>
  An instance of the float operations, for evaluating the model on concrete inputs:
  the amounts are rational numbers and the arithmetic is exact. \<open>round\<close> and the format
  round half to even, as Python does. It agrees with the binary floats of Python on the
  inputs evaluated below, where every number has at most 7 significant digits and the
  results of \<open>-\<close> and \<open>sum\<close> are rounded to 2 decimals or are whole numbers. The
  instance has finite values only: it reads the words \<open>inf\<close>, \<open>infinity\<close> and \<open>nan\<close>,
  which \<open>float\<close> accepts, as \<open>None\<close>.
\<close>

definition round_half_even :: "rat \<Rightarrow> int" where
  "round_half_even x =
     (let f = \<lfloor>x\<rfloor>; d = x - of_int f
      in if d < 1 / 2 then f else if 1 / 2 < d then f + 1 else if even f then f else f + 1)"

definition exact_round2 :: "rat \<Rightarrow> rat" where
  "exact_round2 x = of_int (round_half_even (x * 100)) / 100"

text \<open>The decimal digits of a natural number.\<close>

function show_nat :: "nat \<Rightarrow> string" where
  "show_nat n = (if n < 10 then [''0123456789'' ! n] else show_nat (n div 10) @ [''0123456789'' ! (n mod 10)])"
  by pat_completeness auto
termination
  by (relation "measure id") auto

definition exact_fmt2 :: "rat \<Rightarrow> string" where
  "exact_fmt2 x =
     (let c = nat (round_half_even (\<bar>x\<bar> * 100))
      in (if x < 0 then ''-'' else []) @ show_nat (c div 100) @ ''.'' @
         show_nat (c mod 100 div 10) @ show_nat (c mod 10))"

text \<open>
  \<open>float(s)\<close> on decimal literals: blanks around, an optional sign, digits with an
  optional point, an optional exponent.
\<close>

definition split_at :: "(pychar \<Rightarrow> bool) \<Rightarrow> pystr \<Rightarrow> pystr \<times> pystr option" where
  "split_at p s =
     (takeWhile (\<lambda>c. \<not> p c) s, case dropWhile (\<lambda>c. \<not> p c) s of [] \<Rightarrow> None | c # t \<Rightarrow> Some t)"

definition fraction_val :: "pystr \<Rightarrow> rat" where
  "fraction_val ds = of_nat (digits_val ds) / 10 ^ length ds"

definition mantissa :: "pystr \<Rightarrow> rat option" where
  "mantissa s =
     (case split_at (\<lambda>c. c = of_char CHR ''.'') s of
        (ip, None) \<Rightarrow> map_option (\<lambda>ds. of_nat (digits_val ds)) (digitpart ip)
      | (ip, Some fp) \<Rightarrow>
          if fp = [] then map_option (\<lambda>ds. of_nat (digits_val ds)) (digitpart ip)
          else if ip = [] then map_option fraction_val (digitpart fp)
          else (case (digitpart ip, digitpart fp) of
                  (Some ds, Some fs) \<Rightarrow> Some (of_nat (digits_val ds) + fraction_val fs)
                | _ \<Rightarrow> None))"

definition exponent :: "pystr option \<Rightarrow> int option" where
  "exponent e =
     (case e of
        None \<Rightarrow> Some 0
      | Some s \<Rightarrow>
          (case signed s of
             (neg, t) \<Rightarrow> map_option (\<lambda>ds. if neg then - int (digits_val ds) else int (digits_val ds))
                           (digitpart t)))"

definition exact_float :: "pystr \<Rightarrow> rat option" where
  "exact_float s =
     (case signed (strip s) of
        (neg, t) \<Rightarrow>
          (case split_at (\<lambda>c. c = of_char CHR ''e'' \<or> c = of_char CHR ''E'') t of
             (m, e) \<Rightarrow>
               (case (mantissa m, exponent e) of
                  (Some v, Some k) \<Rightarrow>
                    Some ((if neg then - v else v) *
                          (if 0 \<le> k then 10 ^ nat k else 1 / 10 ^ nat (- k)))
                | _ \<Rightarrow> None)))"

definition exact_ops :: "rat float_ops" where
  "exact_ops =
     \<lparr>py_float = exact_float, fsub = (\<lambda>x y. x - y), fsum = sum_list, round2 = exact_round2,
      feq = (\<lambda>x y. x = y), fmt2 = exact_fmt2\<rparr>"

section \<open>The texts a regular expression matches\<close>

text \<open>
  \<open>matches r u\<close>: the regular expression \<open>r\<close> matches the whole of the text \<open>u\<close>. Every
  result of \<open>rmatch\<close> has taken such a text from the front of its input.
\<close>

inductive matches :: "regex \<Rightarrow> pystr \<Rightarrow> bool" where
  m_Eps: "matches Eps []"
| m_Sym: "p c \<Longrightarrow> matches (Sym p) [c]"
| m_Seq: "matches a u \<Longrightarrow> matches b v \<Longrightarrow> matches (Seq a b) (u @ v)"
| m_AltL: "matches a u \<Longrightarrow> matches (Alt a b) u"
| m_AltR: "matches b u \<Longrightarrow> matches (Alt a b) u"
| m_OptN: "matches (Opt a) []"
| m_OptS: "matches a u \<Longrightarrow> matches (Opt a) u"
| m_StarN: "matches (Star a) []"
| m_StarS: "matches a u \<Longrightarrow> matches (Star a) v \<Longrightarrow> matches (Star a) (u @ v)"
| m_Grp: "matches a u \<Longrightarrow> matches (Grp n a) u"

text \<open>Whether a regular expression has a capturing group.\<close>

fun has_grp :: "regex \<Rightarrow> bool" where
  "has_grp Eps = False"
| "has_grp (Sym p) = False"
| "has_grp (Seq a b) = (has_grp a \<or> has_grp b)"
| "has_grp (Alt a b) = (has_grp a \<or> has_grp b)"
| "has_grp (Opt a) = has_grp a"
| "has_grp (Star a) = has_grp a"
| "has_grp (Grp n a) = True"

text \<open>
  The shape of the numerals of the pattern: 1 to 3 digits, then any number of groups of
  a separator and 3 digits, then a separator and 2 digits. Every separator is a point or
  a comma, each on its own.
\<close>

fun numeral_tail :: "pystr \<Rightarrow> bool" where
  "numeral_tail [x, a, b] \<longleftrightarrow> is_sep x \<and> is_digit a \<and> is_digit b"
| "numeral_tail (x # a # b # c # rest) \<longleftrightarrow>
     is_sep x \<and> is_digit a \<and> is_digit b \<and> is_digit c \<and> numeral_tail rest"
| "numeral_tail s \<longleftrightarrow> False"

definition numeral_shape :: "pystr \<Rightarrow> bool" where
  "numeral_shape s \<longleftrightarrow>
     (\<exists>k\<in>{1, 2, 3}. k \<le> length s \<and> list_all is_digit (take k s) \<and> numeral_tail (drop k s))"

section \<open>The descending sort\<close>

lemma set_insort_desc: "set (insort_desc x xs) = insert x (set xs)"
  by (induction xs) auto

lemma sorted_insort_desc: "sorted_wrt (\<ge>) xs \<Longrightarrow> sorted_wrt (\<ge>) (insort_desc x xs)"
  by (induction xs) (auto simp: set_insort_desc)

lemma filter_insort_desc:
  "filter (\<lambda>y. y = k) (insort_desc x xs) = filter (\<lambda>y. y = k) (x # xs)"
  by (induction xs) auto

lemma set_sort_reverse: "set (sort_reverse xs) = set xs"
  by (induction xs) (auto simp: sort_reverse_def set_insort_desc)

lemma sorted_sort_reverse: "sorted_wrt (\<ge>) (sort_reverse xs)"
  by (induction xs) (auto simp: sort_reverse_def sorted_insort_desc)

lemma filter_sort_reverse: "filter (\<lambda>y. y = k) (sort_reverse xs) = filter (\<lambda>y. y = k) xs"
proof (induction xs)
  case Nil
  show ?case by (simp add: sort_reverse_def)
next
  case (Cons x xs)
  have "sort_reverse (x # xs) = insort_desc x (sort_reverse xs)"
    by (simp add: sort_reverse_def)
  then show ?case using Cons by (simp add: filter_insort_desc)
qed

lemma sort_reverse_Nil_iff: "sort_reverse xs = [] \<longleftrightarrow> xs = []"
  using set_sort_reverse [of xs] by (metis set_empty)

lemma insort_desc_greatest: "\<forall>y\<in>set xs. y \<le> x \<Longrightarrow> insort_desc x xs = x # xs"
  by (cases xs) auto

lemma sort_reverse_sorted: "sorted_wrt (\<ge>) xs \<Longrightarrow> sort_reverse xs = xs"
proof (induction xs)
  case Nil
  show ?case by (simp add: sort_reverse_def)
next
  case (Cons x xs)
  have "sort_reverse (x # xs) = insort_desc x (sort_reverse xs)"
    by (simp add: sort_reverse_def)
  with Cons show ?case by (simp add: insort_desc_greatest)
qed

lemma hd_sorted_desc: "sorted_wrt (\<ge>) xs \<Longrightarrow> xs \<noteq> [] \<Longrightarrow> hd xs = Max (set xs)"
proof (cases xs)
  case Nil
  assume "xs \<noteq> []" with Nil show ?thesis by simp
next
  case (Cons x ys)
  assume "sorted_wrt (\<ge>) xs"
  with Cons have "\<forall>y\<in>set ys. y \<le> x" by simp
  then have "Max (set (x # ys)) = x"
    by (intro Max_eqI) auto
  with Cons show ?thesis by simp
qed

lemma hd_sort_reverse: "xs \<noteq> [] \<Longrightarrow> hd (sort_reverse xs) = Max (set xs)"
  using hd_sorted_desc [OF sorted_sort_reverse, of xs] by (simp add: sort_reverse_Nil_iff set_sort_reverse)

section \<open>Evaluation of the exact instance\<close>

lemma exact_ops_simps:
  "py_float exact_ops = exact_float" "fsub exact_ops = (\<lambda>x y. x - y)" "fsum exact_ops = sum_list"
  "round2 exact_ops = exact_round2" "feq exact_ops = (\<lambda>x y. x = y)" "fmt2 exact_ops = exact_fmt2"
  by (simp_all add: exact_ops_def)

section \<open>The decision of the reconciliation\<close>

text \<open>
  C2: for every pair of lists of positive amounts \<open>P\<close> and discounts \<open>D\<close>, the
  reconciliation of lines 134-151 takes exactly one of four outcomes, by precedence:
  \<open>P\<close> empty gives NO_AMOUNT with no total; \<open>P\<close> non-empty and \<open>D\<close> empty gives OK with the
  total \<open>max P\<close>; both non-empty and \<open>round(max P - max D, 2)\<close> equal to some element of
  \<open>P\<close> rounded to 2 decimals gives APPLIED_DISCOUNT with that computed value as total;
  otherwise NEEDS_INTERACTION with the total \<open>max P\<close>. The four conditions exclude each
  other and cover every pair.
\<close>

theorem reconcile_four_outcomes:
  fixes fo :: "('a::linorder) float_ops"
  shows
  "(P = [] \<longrightarrow>
      status (reconcile fo P D) = STATUS_NO_AMOUNT \<and> total (reconcile fo P D) = None) \<and>
   (P \<noteq> [] \<and> D = [] \<longrightarrow>
      status (reconcile fo P D) = STATUS_OK \<and> total (reconcile fo P D) = Some (Max (set P))) \<and>
   (P \<noteq> [] \<and> D \<noteq> [] \<and>
      (\<exists>p\<in>set P. feq fo (round2 fo (fsub fo (Max (set P)) (Max (set D)))) (round2 fo p)) \<longrightarrow>
      status (reconcile fo P D) = STATUS_APPLIED_DISCOUNT \<and>
      total (reconcile fo P D) = Some (round2 fo (fsub fo (Max (set P)) (Max (set D))))) \<and>
   (P \<noteq> [] \<and> D \<noteq> [] \<and>
      \<not> (\<exists>p\<in>set P. feq fo (round2 fo (fsub fo (Max (set P)) (Max (set D)))) (round2 fo p)) \<longrightarrow>
      status (reconcile fo P D) = STATUS_NEEDS_INTERACTION \<and>
      total (reconcile fo P D) = Some (Max (set P)))"
  by (simp add: reconcile_def Let_def sort_reverse_Nil_iff hd_sort_reverse list_ex_iff set_sort_reverse)

theorem reconcile_four_outcomes_witness:
  "status (reconcile exact_ops [] [10]) = STATUS_NO_AMOUNT \<and>
   total (reconcile exact_ops [] [10]) = None \<and>
   status (reconcile exact_ops [90, 100] []) = STATUS_OK \<and>
   total (reconcile exact_ops [90, 100] []) = Some 100 \<and>
   status (reconcile exact_ops [90, 100] [10]) = STATUS_APPLIED_DISCOUNT \<and>
   total (reconcile exact_ops [90, 100] [10]) = Some 90 \<and>
   status (reconcile exact_ops [100] [10]) = STATUS_NEEDS_INTERACTION \<and>
   total (reconcile exact_ops [100] [10]) = Some 100"
  using reconcile_four_outcomes [of "[]" exact_ops "[10]"]
    reconcile_four_outcomes [of "[90, 100]" exact_ops "[]"]
    reconcile_four_outcomes [of "[90, 100]" exact_ops "[10]"]
    reconcile_four_outcomes [of "[100]" exact_ops "[10]"]
  by (simp add: exact_ops_simps exact_round2_def round_half_even_def)

text \<open>
  C4 as stated (the total is present if and only if the outcome is neither NO_AMOUNT nor
  the pending NEEDS_INTERACTION) fails: for the positive amount 100.00 and the discount
  10.00 the outcome is NEEDS_INTERACTION and the total 100.00 is present.
\<close>

theorem needs_interaction_total_counterexample:
  "\<not> (total (reconcile exact_ops [100] [10]) \<noteq> None \<longleftrightarrow>
        status (reconcile exact_ops [100] [10]) \<noteq> STATUS_NO_AMOUNT \<and>
        status (reconcile exact_ops [100] [10]) \<noteq> STATUS_NEEDS_INTERACTION)"
  by (simp add: reconcile_def Let_def sort_reverse_def exact_ops_simps exact_round2_def round_half_even_def)

text \<open>
  C4, amended: for every result of the reconciliation, the total is present if and only
  if the outcome is not NO_AMOUNT; a NEEDS_INTERACTION result carries the provisional
  total \<open>max P\<close>.
\<close>

theorem total_present_iff:
  fixes fo :: "('a::linorder) float_ops"
  shows
  "(total (reconcile fo P D) \<noteq> None \<longleftrightarrow> status (reconcile fo P D) \<noteq> STATUS_NO_AMOUNT) \<and>
   (status (reconcile fo P D) = STATUS_NEEDS_INTERACTION \<longrightarrow>
      total (reconcile fo P D) = Some (Max (set P)))"
  by (simp add: reconcile_def Let_def sort_reverse_Nil_iff hd_sort_reverse)

theorem total_present_iff_witness:
  "status (reconcile exact_ops [100] [10]) = STATUS_NEEDS_INTERACTION \<and>
   total (reconcile exact_ops [100] [10]) = Some 100 \<and>
   status (reconcile exact_ops [] [10]) = STATUS_NO_AMOUNT \<and>
   total (reconcile exact_ops [] [10]) = None"
proof -
  have s: "status (reconcile exact_ops [100] [10]) = STATUS_NEEDS_INTERACTION"
    by (simp add: reconcile_def Let_def sort_reverse_def exact_ops_simps exact_round2_def round_half_even_def)
  have n: "status (reconcile exact_ops [] [10]) = STATUS_NO_AMOUNT"
    by (simp add: reconcile_def)
  from s n total_present_iff [of exact_ops "[100]" "[10]"] total_present_iff [of exact_ops "[]" "[10]"]
  show ?thesis by simp
qed

section \<open>The matcher and the pattern\<close>

inductive_simps matches_Eps [simp]: "matches Eps w"
inductive_simps matches_Sym [simp]: "matches (Sym p) w"
inductive_simps matches_Seq: "matches (Seq a b) w"
inductive_simps matches_Alt [simp]: "matches (Alt a b) w"
inductive_simps matches_Opt: "matches (Opt a) w"
inductive_simps matches_Grp [simp]: "matches (Grp n a) w"

declare rmatch.simps(6) [simp del]

lemma rmatch_sound_aux:
  "x \<in> set (rmatch r st) \<Longrightarrow> \<exists>u. fst st = u @ fst x \<and> matches r u"
proof (induction r st arbitrary: x rule: rmatch.induct)
  case (1 st)
  then show ?case by simp
next
  case (2 p s g)
  then show ?case by (auto split: list.splits if_splits)
next
  case (3 a b st)
  from "3.prems" obtain y where 1: "y \<in> set (rmatch a st)" and 2: "x \<in> set (rmatch b y)"
    by auto
  from "3.IH"(1) [OF 1] obtain u where u: "fst st = u @ fst y" "matches a u" by blast
  from "3.IH"(2) [OF 1 2] obtain v where v: "fst y = v @ fst x" "matches b v" by blast
  from u v have "fst st = (u @ v) @ fst x \<and> matches (Seq a b) (u @ v)"
    by (simp add: matches.m_Seq)
  then show ?case by blast
next
  case (4 a b st)
  from "4.prems" consider (left) "x \<in> set (rmatch a st)" | (right) "x \<in> set (rmatch b st)"
    by auto
  then show ?case
  proof cases
    case left
    from "4.IH"(1) [OF left] show ?thesis by (blast intro: matches.intros)
  next
    case right
    from "4.IH"(2) [OF right] show ?thesis by (blast intro: matches.intros)
  qed
next
  case (5 a st)
  from "5.prems" consider (skip) "x = st" | (take) "x \<in> set (rmatch a st)"
    by auto
  then show ?case
  proof cases
    case skip
    then show ?thesis by (simp add: matches.m_OptN)
  next
    case take
    from "5.IH" [OF take] show ?thesis by (blast intro: matches.intros)
  qed
next
  case (6 a st)
  from "6.prems" consider (stop) "x = st"
    | (step) y where "y \<in> set (rmatch a st)" "length (fst y) < length (fst st)"
        "x \<in> set (rmatch (Star a) y)"
    by (subst (asm) rmatch.simps(6)) auto
  then show ?case
  proof cases
    case stop
    then show ?thesis by (auto intro: matches.intros)
  next
    case step
    from "6.IH"(1) [OF step(1)] obtain u where u: "fst st = u @ fst y" "matches a u" by blast
    have "y \<in> set (filter (\<lambda>st'. length (fst st') < length (fst st)) (rmatch a st))"
      using step by simp
    from "6.IH"(2) [OF this step(3)]
    obtain v where v: "fst y = v @ fst x" "matches (Star a) v" by blast
    from u v have "fst st = (u @ v) @ fst x \<and> matches (Star a) (u @ v)"
      by (simp add: matches.m_StarS)
    then show ?thesis by blast
  qed
next
  case (7 n a s g)
  from "7.prems" obtain y where y: "y \<in> set (rmatch a (s, g))" and "fst x = fst y"
    by auto
  with "7.IH" [OF y] show ?case by (auto intro: matches.intros)
qed

lemma rmatch_sound:
  "(t, g') \<in> set (rmatch r (s, g)) \<Longrightarrow> \<exists>u. s = u @ t \<and> matches r u"
  using rmatch_sound_aux [of "(t, g')" r "(s, g)"] by simp

lemma rmatch_no_grp_aux:
  "\<not> has_grp r \<Longrightarrow> x \<in> set (rmatch r st) \<Longrightarrow> snd x = snd st"
proof (induction r st arbitrary: x rule: rmatch.induct)
  case (2 p s g)
  then show ?case by (auto split: list.splits if_splits)
next
  case (3 a b st)
  from "3.prems" obtain y where 1: "y \<in> set (rmatch a st)" and 2: "x \<in> set (rmatch b y)"
    by auto
  from "3.prems" "3.IH"(1) [OF _ 1] have "snd y = snd st" by simp
  moreover from "3.prems" "3.IH"(2) [OF 1 _ 2] have "snd x = snd y" by simp
  ultimately show ?case by simp
next
  case (6 a st)
  from "6.prems" consider (stop) "x = st"
    | (step) y where "y \<in> set (rmatch a st)" "length (fst y) < length (fst st)"
        "x \<in> set (rmatch (Star a) y)"
    by (subst (asm) rmatch.simps(6)) auto
  then show ?case
  proof cases
    case stop
    then show ?thesis by simp
  next
    case step
    from "6.prems" "6.IH"(1) [OF _ step(1)] have y: "snd y = snd st" by simp
    have "y \<in> set (filter (\<lambda>st'. length (fst st') < length (fst st)) (rmatch a st))"
      using step by simp
    from "6.IH"(2) [OF this _ step(3)] "6.prems" have "snd x = snd y" by simp
    with y show ?thesis by simp
  qed
qed auto

lemma rmatch_no_grp:
  "\<not> has_grp r \<Longrightarrow> (t, g') \<in> set (rmatch r (s, g)) \<Longrightarrow> g' = g"
  using rmatch_no_grp_aux [of r "(t, g')" "(s, g)"] by simp

lemma rmatch_Grp:
  assumes "(t, g') \<in> set (rmatch (Grp n a) (s, g))"
  shows "\<exists>u g0. s = u @ t \<and> matches a u \<and> g' = (n, u) # g0 \<and> (t, g0) \<in> set (rmatch a (s, g))"
proof -
  from assms obtain g0 where g0: "(t, g0) \<in> set (rmatch a (s, g))"
    and g': "g' = (n, take (length s - length t) s) # g0" by auto
  from rmatch_sound [OF g0] obtain u where u: "s = u @ t" "matches a u" by blast
  then have "take (length s - length t) s = u" by simp
  with g0 g' u show ?thesis by blast
qed


lemma rmatch_Seq_mem:
  "(t, g') \<in> set (rmatch (Seq a b) (s, g)) \<longleftrightarrow>
     (\<exists>t1 g1. (t1, g1) \<in> set (rmatch a (s, g)) \<and> (t, g') \<in> set (rmatch b (t1, g1)))"
  by auto

lemma rmatch_Alt_mem:
  "x \<in> set (rmatch (Alt a b) st) \<longleftrightarrow> x \<in> set (rmatch a st) \<or> x \<in> set (rmatch b st)"
  by simp

lemma rmatch_Opt_mem:
  "x \<in> set (rmatch (Opt a) st) \<longleftrightarrow> x \<in> set (rmatch a st) \<or> x = st"
  by auto

declare rmatch.simps(1-5,7) [simp del]

lemma rep_exact_2: "rep_exact 2 r = Seq r (Seq r Eps)"
  by (simp add: eval_nat_numeral)

lemma rep_exact_3: "rep_exact 3 r = Seq r (Seq r (Seq r Eps))"
  by (simp add: eval_nat_numeral)

lemma rep_1_3: "rep (Suc 0) 3 r = Seq (Seq r Eps) (Opt (Seq r (Opt (Seq r Eps))))"
  by (simp add: rep_def eval_nat_numeral)

lemma matches_Star_induct [consumes 1, case_names stop step]:
  assumes "matches (Star a) u" and "P []"
    and "\<And>v w. matches a v \<Longrightarrow> matches (Star a) w \<Longrightarrow> P w \<Longrightarrow> P (v @ w)"
  shows "P u"
  using assms by (induction "Star a" u rule: matches.induct) auto

lemma matches_leading_digits:
  assumes "matches (rep (Suc 0) 3 digit) d"
  shows "length d \<in> {1, 2, 3} \<and> list_all is_digit d"
  using assms by (auto simp: rep_1_3 digit_def matches_Seq matches_Opt)

lemma matches_decimals:
  assumes "matches (Seq sep (rep_exact 2 digit)) w"
  shows "numeral_tail w"
  using assms by (auto simp: rep_exact_2 digit_def sep_def matches_Seq)

lemma matches_group_of_three:
  assumes "matches (Seq sep (rep_exact 3 digit)) v" and "numeral_tail w"
  shows "numeral_tail (v @ w)"
  using assms by (auto simp: rep_exact_3 digit_def sep_def matches_Seq)

lemma matches_groups:
  assumes "matches (Star (Seq sep (rep_exact 3 digit))) v" and "numeral_tail w"
  shows "numeral_tail (v @ w)"
  using assms by (induction rule: matches_Star_induct) (simp_all add: matches_group_of_three)

lemma matches_number_shape:
  assumes "matches number u"
  shows "numeral_shape u"
proof -
  from assms obtain d v w where u: "u = d @ v @ w"
    and d: "matches (rep (Suc 0) 3 digit) d"
    and v: "matches (Star (Seq sep (rep_exact 3 digit))) v"
    and w: "matches (Seq sep (rep_exact 2 digit)) w"
    unfolding number_def by (subst (asm) matches_Seq, subst (asm) matches_Seq) auto
  from matches_groups [OF v matches_decimals [OF w]] have "numeral_tail (v @ w)" .
  moreover from matches_leading_digits [OF d] have "length d \<in> {1, 2, 3}" "list_all is_digit d"
    by simp_all
  ultimately show ?thesis
    unfolding numeral_shape_def u by (intro bexI [of _ "length d"]) auto
qed

lemma numeral_shape_nonempty: "numeral_shape u \<Longrightarrow> u \<noteq> []"
  by (auto simp: numeral_shape_def)

lemma no_grp_parts:
  "\<not> has_grp number" "\<not> has_grp currency" "\<not> has_grp (Star ws)"
  "\<not> has_grp (Seq (lit c) (Star ws))"
  by (simp_all add: number_def rep_1_3 rep_exact_2 rep_exact_3 digit_def sep_def currency_def
      lit_def ws_def)

lemma rmatch_sign:
  assumes "(t1, g1) \<in> set (rmatch (Opt (Grp 1 (Seq (lit c) (Star ws)))) (s, []))"
  shows "g1 = [] \<or> (\<exists>u1. g1 = [(1, u1)] \<and> u1 \<noteq> [])"
proof -
  from assms consider (skip) "g1 = []"
    | (take) "(t1, g1) \<in> set (rmatch (Grp 1 (Seq (lit c) (Star ws))) (s, []))"
    by (auto simp: rmatch_Opt_mem)
  then show ?thesis
  proof cases
    case skip
    then show ?thesis by simp
  next
    case take
    from rmatch_Grp [OF take] obtain u g0 where u: "matches (Seq (lit c) (Star ws)) u"
      and g1: "g1 = (1, u) # g0" and g0: "(t1, g0) \<in> set (rmatch (Seq (lit c) (Star ws)) (s, []))"
      by blast
    from rmatch_no_grp [OF no_grp_parts(4) g0] have "g0 = []" .
    moreover from u have "u \<noteq> []" by (auto simp: matches_Seq lit_def)
    ultimately show ?thesis using g1 by simp
  qed
qed

lemma rmatch_currency_number:
  assumes "(t, m) \<in> set (rmatch (Seq currency (Seq (Star ws) (Grp 2 number))) (t1, g1))"
  shows "\<exists>u. matches number u \<and> m = (2, u) # g1"
proof -
  from assms obtain t2 g2 t3 g3 where 2: "(t2, g2) \<in> set (rmatch currency (t1, g1))"
    and 3: "(t3, g3) \<in> set (rmatch (Star ws) (t2, g2))"
    and 4: "(t, m) \<in> set (rmatch (Grp 2 number) (t3, g3))"
    unfolding rmatch_Seq_mem by blast
  from rmatch_no_grp [OF no_grp_parts(2) 2] rmatch_no_grp [OF no_grp_parts(3) 3]
  have g3: "g3 = g1" by simp
  from rmatch_Grp [OF 4] obtain u g0 where u: "matches number u" "m = (2, u) # g0"
    and g0: "(t, g0) \<in> set (rmatch number (t3, g3))" by blast
  from rmatch_no_grp [OF no_grp_parts(1) g0] g3 u show ?thesis by simp
qed

lemma rmatch_number_currency:
  assumes "(t, m) \<in> set (rmatch (Seq (Grp 3 number) (Seq (Star ws) currency)) (t1, g1))"
  shows "\<exists>u. matches number u \<and> m = (3, u) # g1"
proof -
  from assms obtain t2 g2 t3 g3 where 2: "(t2, g2) \<in> set (rmatch (Grp 3 number) (t1, g1))"
    and 3: "(t3, g3) \<in> set (rmatch (Star ws) (t2, g2))"
    and 4: "(t, m) \<in> set (rmatch currency (t3, g3))"
    unfolding rmatch_Seq_mem by blast
  from rmatch_Grp [OF 2] obtain u g0 where u: "matches number u" "g2 = (3, u) # g0"
    and g0: "(t2, g0) \<in> set (rmatch number (t1, g1))" by blast
  from rmatch_no_grp [OF no_grp_parts(1) g0] have "g0 = g1" .
  moreover from rmatch_no_grp [OF no_grp_parts(3) 3] rmatch_no_grp [OF no_grp_parts(2) 4]
  have "m = g2" by simp
  ultimately show ?thesis using u by simp
qed

lemma rmatch_pattern:
  assumes "(t, m) \<in> set (rmatch pattern (s, []))"
  shows "\<exists>u g1. matches number u \<and> (m = (2, u) # g1 \<or> m = (3, u) # g1) \<and>
           (g1 = [] \<or> (\<exists>u1. g1 = [(1, u1)] \<and> u1 \<noteq> []))"
proof -
  from assms obtain t1 g1
    where 1: "(t1, g1) \<in> set (rmatch (Opt (Grp 1 (Seq (lit (of_char CHR ''-'')) (Star ws)))) (s, []))"
    and 2: "(t, m) \<in> set (rmatch (Alt (Seq currency (Seq (Star ws) (Grp 2 number)))
                                       (Seq (Grp 3 number) (Seq (Star ws) currency))) (t1, g1))"
    unfolding pattern_def rmatch_Seq_mem by blast
  from 2 consider
      (before) "(t, m) \<in> set (rmatch (Seq currency (Seq (Star ws) (Grp 2 number))) (t1, g1))"
    | (after) "(t, m) \<in> set (rmatch (Seq (Grp 3 number) (Seq (Star ws) currency)) (t1, g1))"
    by (auto simp: rmatch_Alt_mem)
  then show ?thesis
  proof cases
    case before
    from rmatch_currency_number [OF before] rmatch_sign [OF 1] show ?thesis by blast
  next
    case after
    from rmatch_number_currency [OF after] rmatch_sign [OF 1] show ?thesis by blast
  qed
qed

declare finditer.simps [simp del]

lemma finditer_mem:
  "m \<in> set (finditer r s) \<Longrightarrow> \<exists>s' t. (t, m) \<in> set (rmatch r (s', []))"
proof (induction r s rule: finditer.induct)
  case (1 r s)
  show ?case
  proof (cases "rmatch r (s, [])")
    case Nil
    with "1.prems" "1.IH"(1) show ?thesis
      by (subst (asm) finditer.simps) (auto split: list.splits)
  next
    case (Cons x other)
    obtain rest g where x: "x = (rest, g)" by (cases x)
    from Cons x have hd: "(rest, g) \<in> set (rmatch r (s, []))" by simp
    from "1.prems" Cons x consider (found) "m = g"
      | (later) "length rest < length s" "m \<in> set (finditer r rest)"
      | (onward) "\<not> length rest < length s" "\<exists>c t. s = c # t \<and> m \<in> set (finditer r t)"
      by (subst (asm) finditer.simps) (auto split: list.splits if_splits)
    then show ?thesis
    proof cases
      case found
      with hd show ?thesis by blast
    next
      case later
      with "1.IH"(2) [OF Cons x [symmetric]] show ?thesis by blast
    next
      case onward
      then obtain c t where "s = c # t" "m \<in> set (finditer r t)" by blast
      with "1.IH"(3) [OF Cons x [symmetric] onward(1)] show ?thesis by blast
    qed
  qed
qed

lemma match_groups:
  assumes "m \<in> set (finditer pattern content)"
  shows "\<exists>u. py_or (group m 2) (group m 3) = Some u \<and> numeral_shape u"
proof -
  from finditer_mem [OF assms] obtain s t where "(t, m) \<in> set (rmatch pattern (s, []))" by blast
  from rmatch_pattern [OF this] obtain u g1 where u: "matches number u"
    and m: "m = (2, u) # g1 \<or> m = (3, u) # g1"
    and g1: "g1 = [] \<or> (\<exists>u1. g1 = [(1, u1)] \<and> u1 \<noteq> [])" by blast
  from matches_number_shape [OF u] have shape: "numeral_shape u" .
  with numeral_shape_nonempty have "u \<noteq> []" by blast
  with m g1 have "py_or (group m 2) (group m 3) = Some u"
    by (auto simp: py_or_def group_def truthy_def)
  with shape show ?thesis by blast
qed

lemma extract_loop_total:
  "\<forall>m\<in>set ms. py_or (group m 2) (group m 3) \<noteq> None \<Longrightarrow>
     \<exists>P D. extract_loop fo ms acc = Inr (P, D)"
proof (induction ms arbitrary: acc)
  case Nil
  show ?case by (cases acc) simp
next
  case (Cons m ms)
  obtain P D where acc: "acc = (P, D)" by (cases acc)
  from Cons.prems obtain u where u: "py_or (group m 2) (group m 3) = Some u" by auto
  from Cons.prems have rest: "\<forall>m\<in>set ms. py_or (group m 2) (group m 3) \<noteq> None" by simp
  show ?case
    using Cons.IH [OF rest] u unfolding acc
    by (cases "py_float fo (clean_num_str u)") (simp_all add: Let_def)
qed

lemma extract_amounts_total: "\<exists>P D. extract_amounts fo content = Inr (P, D)"
  unfolding extract_amounts_def
  by (rule extract_loop_total) (use match_groups in fastforce)

section \<open>Evaluation of the extraction\<close>

lemmas pattern_eval = pattern_def number_def rep_1_3 rep_exact_2 rep_exact_3 sep_def is_sep_def
  digit_def is_digit_def currency_def lit_def py_lower_def ws_def is_space_def euro_def
  rmatch.simps finditer.simps

lemmas float_eval = exact_ops_simps exact_float_def signed_def strip_def split_at_def mantissa_def
  exponent_def digits_val_def fraction_val_def is_digit_def is_space_def

lemma finditer_us: "finditer pattern (str ''1,234.56 EUR'') = [[(3, str ''1,234.56'')]]"
  by (simp add: pattern_eval)

lemma finditer_eu: "finditer pattern (str ''1.234,56 EUR'') = [[(3, str ''1.234,56'')]]"
  by (simp add: pattern_eval)

lemma finditer_same: "finditer pattern (str ''1.234.56 EUR'') = [[(3, str ''1.234.56'')]]"
  by (simp add: pattern_eval)

lemma float_us: "exact_float (str ''1.23456'') = Some (123456 / 100000)"
  by (simp add: float_eval)

lemma float_eu: "exact_float (str ''1234.56'') = Some (123456 / 100)"
  by (simp add: float_eval)

text \<open>
  C1 says that the numerals \<open>1.234,56\<close> and \<open>1,234.56\<close> both yield the amount 1234.56. The
  code (line 124) removes every point and then turns every comma into a point, whatever
  role they play: for \<open>1,234.56 EUR\<close> the text given to \<open>float\<close> is \<open>1.23456\<close> and the
  amount is 1.23456; only \<open>1.234,56 EUR\<close> yields 1234.56.
\<close>

theorem us_numeral_misread:
  "finditer pattern (str ''1,234.56 EUR'') = [[(3, str ''1,234.56'')]] \<and>
   clean_num_str (str ''1,234.56'') = str ''1.23456'' \<and>
   analyze_invoice_text exact_ops (str ''1,234.56 EUR'') =
     Inr \<lparr>total = Some (123456 / 100000), notes_txt = [], status = STATUS_OK,
          positive_amounts = [123456 / 100000], discounts = []\<rparr> \<and>
   analyze_invoice_text exact_ops (str ''1.234,56 EUR'') =
     Inr \<lparr>total = Some (123456 / 100), notes_txt = [], status = STATUS_OK,
          positive_amounts = [123456 / 100], discounts = []\<rparr>"
proof -
  have c_us: "clean_num_str (str ''1,234.56'') = str ''1.23456''"
    by (simp add: clean_num_str_def replace_def)
  have c_eu: "clean_num_str (str ''1.234,56'') = str ''1234.56''"
    by (simp add: clean_num_str_def replace_def)
  have 2: "extract_amounts exact_ops (str ''1,234.56 EUR'') = Inr ([123456 / 100000], [])"
    unfolding extract_amounts_def finditer_us
    using c_us float_us by (simp add: group_def py_or_def truthy_def exact_ops_simps)
  have 3: "extract_amounts exact_ops (str ''1.234,56 EUR'') = Inr ([123456 / 100], [])"
    unfolding extract_amounts_def finditer_eu
    using c_eu float_eu by (simp add: group_def py_or_def truthy_def exact_ops_simps)
  show ?thesis
    unfolding analyze_invoice_text_def 2 3 using finditer_us c_us
    by (simp add: reconcile_def sort_reverse_def Let_def)
qed

section \<open>Completeness of the matcher\<close>

lemma rmatch_complete:
  "matches r u \<Longrightarrow> \<exists>g'. (t, g') \<in> set (rmatch r (u @ t, g))"
proof (induction r u arbitrary: t g rule: matches.induct)
  case m_Eps
  show ?case by (simp add: rmatch.simps)
next
  case (m_Sym p c)
  then show ?case by (simp add: rmatch.simps)
next
  case (m_Seq a u b v)
  from m_Seq.IH(1) [of "v @ t" g] obtain g1 where 1: "(v @ t, g1) \<in> set (rmatch a (u @ v @ t, g))"
    by blast
  from m_Seq.IH(2) [of t g1] obtain g2 where "(t, g2) \<in> set (rmatch b (v @ t, g1))" by blast
  with 1 have "(t, g2) \<in> set (rmatch (Seq a b) ((u @ v) @ t, g))"
    by (auto simp: rmatch_Seq_mem)
  then show ?case by blast
next
  case (m_AltL a u b)
  then show ?case by (auto simp: rmatch_Alt_mem)
next
  case (m_AltR b u a)
  then show ?case by (auto simp: rmatch_Alt_mem)
next
  case (m_OptN a)
  show ?case by (auto simp: rmatch_Opt_mem)
next
  case (m_OptS a u)
  then show ?case by (auto simp: rmatch_Opt_mem)
next
  case (m_StarN a)
  have "(t, g) \<in> set (rmatch (Star a) ([] @ t, g))" by (subst rmatch.simps) simp
  then show ?case by blast
next
  case (m_StarS a u v)
  show ?case
  proof (cases "u = []")
    case True
    with m_StarS.IH(2) [of t g] show ?thesis by simp
  next
    case False
    from m_StarS.IH(1) [of "v @ t" g] obtain g1
      where 1: "(v @ t, g1) \<in> set (rmatch a (u @ v @ t, g))" by blast
    from m_StarS.IH(2) [of t g1] obtain g2
      where 2: "(t, g2) \<in> set (rmatch (Star a) (v @ t, g1))" by blast
    from False have "length (v @ t) < length (u @ v @ t)" by simp
    with 1 2 have "(t, g2) \<in> set (rmatch (Star a) ((u @ v) @ t, g))"
      by (subst rmatch.simps) force
    then show ?thesis by blast
  qed
next
  case (m_Grp a u n)
  from m_Grp.IH [of t g] obtain g1 where "(t, g1) \<in> set (rmatch a (u @ t, g))" by blast
  then have "(t, (n, take (length (u @ t) - length t) (u @ t)) # g1) \<in> set (rmatch (Grp n a) (u @ t, g))"
    by (subst rmatch.simps) force
  then show ?case by blast
qed

lemma matches_three_digits:
  "is_digit a \<Longrightarrow> is_digit b \<Longrightarrow> is_digit c \<Longrightarrow> is_sep x \<Longrightarrow>
     matches (Seq sep (rep_exact 3 digit)) [x, a, b, c]"
  using m_Seq [OF m_Sym [of is_sep x] m_Seq [OF m_Sym [of is_digit a]
    m_Seq [OF m_Sym [of is_digit b] m_Seq [OF m_Sym [of is_digit c] m_Eps]]]]
  by (simp add: rep_exact_3 sep_def digit_def)

lemma matches_two_digits:
  "is_digit a \<Longrightarrow> is_digit b \<Longrightarrow> is_sep x \<Longrightarrow> matches (Seq sep (rep_exact 2 digit)) [x, a, b]"
  using m_Seq [OF m_Sym [of is_sep x] m_Seq [OF m_Sym [of is_digit a]
    m_Seq [OF m_Sym [of is_digit b] m_Eps]]]
  by (simp add: rep_exact_2 sep_def digit_def)

lemma numeral_tail_matches:
  "numeral_tail s \<Longrightarrow>
     \<exists>v w. s = v @ w \<and> matches (Star (Seq sep (rep_exact 3 digit))) v \<and>
       matches (Seq sep (rep_exact 2 digit)) w"
proof (induction s rule: numeral_tail.induct)
  case (1 x a b)
  then have "matches (Seq sep (rep_exact 2 digit)) [x, a, b]" by (simp add: matches_two_digits)
  with m_StarN [of "Seq sep (rep_exact 3 digit)"] show ?case
    by (intro exI [of _ "[]"] exI [of _ "[x, a, b]"]) simp
next
  case (2 x a b c rest)
  then have tail: "numeral_tail rest" and g: "matches (Seq sep (rep_exact 3 digit)) [x, a, b, c]"
    by (simp_all add: matches_three_digits)
  from "2.IH" [OF tail] obtain v w where vw: "rest = v @ w"
    "matches (Star (Seq sep (rep_exact 3 digit))) v" "matches (Seq sep (rep_exact 2 digit)) w"
    by blast
  from m_StarS [OF g vw(2)] vw show ?case
    by (intro exI [of _ "[x, a, b, c] @ v"] exI [of _ w]) simp
qed simp_all

lemma leading_digits_matches:
  assumes "length d \<in> {1, 2, 3}" and "list_all is_digit d"
  shows "matches (rep (Suc 0) 3 digit) d"
proof -
  from assms consider a where "d = [a]" "is_digit a"
    | a b where "d = [a, b]" "is_digit a" "is_digit b"
    | a b c where "d = [a, b, c]" "is_digit a" "is_digit b" "is_digit c"
    by (cases d; cases "tl d"; cases "tl (tl d)"; cases "tl (tl (tl d))") auto
  then show ?thesis
  proof cases
    case 1
    then show ?thesis
      using m_Seq [OF m_Seq [OF m_Sym [of is_digit a] m_Eps] m_OptN]
      by (simp add: rep_1_3 digit_def)
  next
    case 2
    then show ?thesis
      using m_Seq [OF m_Seq [OF m_Sym [of is_digit a] m_Eps]
        m_OptS [OF m_Seq [OF m_Sym [of is_digit b] m_OptN]]]
      by (simp add: rep_1_3 digit_def)
  next
    case 3
    then show ?thesis
      using m_Seq [OF m_Seq [OF m_Sym [of is_digit a] m_Eps]
        m_OptS [OF m_Seq [OF m_Sym [of is_digit b]
          m_OptS [OF m_Seq [OF m_Sym [of is_digit c] m_Eps]]]]]
      by (simp add: rep_1_3 digit_def)
  qed
qed

lemma numeral_shape_matches:
  assumes "numeral_shape u"
  shows "matches number u"
proof -
  from assms obtain k where k: "k \<in> {1, 2, 3}" "k \<le> length u" "list_all is_digit (take k u)"
    "numeral_tail (drop k u)" unfolding numeral_shape_def by blast
  from k(1,2) have "length (take k u) \<in> {1, 2, 3}" by auto
  from leading_digits_matches [OF this k(3)] have d: "matches (rep (Suc 0) 3 digit) (take k u)" .
  from numeral_tail_matches [OF k(4)] obtain v w where vw: "drop k u = v @ w"
    "matches (Star (Seq sep (rep_exact 3 digit))) v" "matches (Seq sep (rep_exact 2 digit)) w"
    by blast
  from m_Seq [OF d m_Seq [OF vw(2,3)]] vw(1) have "matches number (take k u @ drop k u)"
    by (simp add: number_def)
  then show ?thesis by simp
qed

lemma matches_number_iff: "matches number u \<longleftrightarrow> numeral_shape u"
  using matches_number_shape numeral_shape_matches by blast


lemma numeral_tail_chars: "numeral_tail s \<Longrightarrow> \<forall>c\<in>set s. is_digit c \<or> is_sep c"
  by (induction s rule: numeral_tail.induct) auto

lemma numeral_shape_chars:
  assumes "numeral_shape u"
  shows "\<forall>c\<in>set u. is_digit c \<or> is_sep c"
proof -
  from assms obtain k where k: "list_all is_digit (take k u)" "numeral_tail (drop k u)"
    unfolding numeral_shape_def by blast
  have "set u = set (take k u) \<union> set (drop k u)"
    by (metis append_take_drop_id set_append)
  with k numeral_tail_chars [OF k(2)] show ?thesis by (auto simp: list_all_iff)
qed

lemma numeral_shape_hd:
  assumes "numeral_shape u"
  shows "\<exists>d r. u = d # r \<and> is_digit d"
proof -
  from assms obtain k where k: "k \<in> {1, 2, 3}" "k \<le> length u" "list_all is_digit (take k u)"
    unfolding numeral_shape_def by blast
  then show ?thesis by (cases u) auto
qed

lemma matches_Star_ws: "matches (Star ws) w \<Longrightarrow> \<forall>c\<in>set w. is_space c"
  by (induction rule: matches_Star_induct) (auto simp: ws_def)

lemma matches_currency:
  assumes "matches currency c"
  shows "c = [euro] \<or> (\<exists>x y z. c = [x, y, z] \<and> x \<in> {69, 101})"
  using assms by (auto simp: currency_def lit_def py_lower_def euro_def matches_Seq split: if_splits)

lemma digit_sep_not_other:
  "is_digit c \<or> is_sep c \<Longrightarrow> \<not> is_space c \<and> c \<noteq> euro \<and> c \<noteq> 69 \<and> c \<noteq> 101 \<and> c \<noteq> 45"
  by (auto simp: is_digit_def is_sep_def is_space_def euro_def)


lemma numeral_then_currency:
  assumes u: "numeral_shape u" and u': "numeral_shape u'"
    and w: "\<forall>c\<in>set w. is_space c" and c: "matches currency c"
    and eq: "u @ str '' EUR'' = u' @ w @ c @ t"
  shows "u' = u \<and> t = []"
proof -
  note cu = numeral_shape_chars [OF u] and cu' = numeral_shape_chars [OF u']
  from matches_currency [OF c] have c_hd: "\<exists>x r. c = x # r \<and> (x = euro \<or> x = 69 \<or> x = 101)"
    by auto
  from eq consider (shorter) z where "u = u' @ z" "z @ str '' EUR'' = w @ c @ t"
    | (longer) z where "u @ z = u'" "str '' EUR'' = z @ w @ c @ t"
    by (auto simp: append_eq_append_conv2)
  then have same: "u' = u \<and> str '' EUR'' = w @ c @ t"
  proof cases
    case shorter
    have "z = []"
    proof (rule ccontr)
      assume "z \<noteq> []"
      then obtain x r where z: "z = x # r" by (cases z) auto
      with shorter(1) cu have x: "is_digit x \<or> is_sep x" by simp
      from z shorter(2) c_hd have "(w \<noteq> [] \<and> hd w = x) \<or> x = euro \<or> x = 69 \<or> x = 101"
        by (cases w) auto
      with w digit_sep_not_other [OF x] show False by (cases w) auto
    qed
    with shorter show ?thesis by simp
  next
    case longer
    have "z = []"
    proof (rule ccontr)
      assume "z \<noteq> []"
      with longer(2) have "hd z = 32" by (cases z) auto
      with \<open>z \<noteq> []\<close> longer(1) have "32 \<in> set u'" by (cases z) auto
      with cu' show False by (auto simp: is_digit_def is_sep_def)
    qed
    with longer show ?thesis by simp
  qed
  from same have eq': "[32, 69, 85, 82] = w @ c @ t" by simp
  from w have w_cases: "w = [] \<or> (\<exists>r. w = 32 # r) \<or> (\<exists>x r. w = x # r \<and> x \<noteq> 32 \<and> is_space x)"
    by (cases w) auto
  have not_space: "\<not> is_space 69" by (simp add: is_space_def)
  from eq' w_cases c_hd have "w = [32]"
    using w not_space by (cases w; cases "tl w") (auto simp: euro_def)
  with eq' have "[69, 85, 82] = c @ t" by simp
  with matches_currency [OF c] have "t = []" by (auto simp: euro_def)
  with same show ?thesis by simp
qed

lemma rmatch_pattern_numeral:
  assumes shape: "numeral_shape u"
    and mem: "(t, m) \<in> set (rmatch pattern (u @ str '' EUR'', []))"
  shows "t = [] \<and> m = [(3, u)]"
proof -
  let ?s = "u @ str '' EUR''"
  from numeral_shape_hd [OF shape] obtain d r where u: "u = d # r" "is_digit d" by blast
  note d = digit_sep_not_other [of d]
  from mem obtain t1 g1
    where 1: "(t1, g1) \<in> set (rmatch (Opt (Grp 1 (Seq (lit (of_char CHR ''-'')) (Star ws)))) (?s, []))"
    and 2: "(t, m) \<in> set (rmatch (Alt (Seq currency (Seq (Star ws) (Grp 2 number)))
                                       (Seq (Grp 3 number) (Seq (Star ws) currency))) (t1, g1))"
    unfolding pattern_def rmatch_Seq_mem by blast
  have no_sign: "t1 = ?s \<and> g1 = []"
  proof -
    from 1 consider (skip) "(t1, g1) = (?s, [])"
      | (take) "(t1, g1) \<in> set (rmatch (Grp 1 (Seq (lit (of_char CHR ''-'')) (Star ws))) (?s, []))"
      by (auto simp: rmatch_Opt_mem)
    then show ?thesis
    proof cases
      case skip
      then show ?thesis by simp
    next
      case take
      from rmatch_sound [OF take] obtain v where v: "?s = v @ t1"
        "matches (Grp 1 (Seq (lit (of_char CHR ''-'')) (Star ws))) v" by blast
      then obtain c v' where "v = c # v'" "py_lower c = 45"
        by (auto simp: matches_Seq lit_def py_lower_def)
      with v(1) u have "py_lower d = 45" by simp
      with u(2) have False by (auto simp: py_lower_def is_digit_def split: if_splits)
      then show ?thesis ..
    qed
  qed
  from 2 no_sign consider
      (before) "(t, m) \<in> set (rmatch (Seq currency (Seq (Star ws) (Grp 2 number))) (?s, []))"
    | (after) "(t, m) \<in> set (rmatch (Seq (Grp 3 number) (Seq (Star ws) currency)) (?s, []))"
    by (auto simp: rmatch_Alt_mem)
  then show ?thesis
  proof cases
    case before
    from rmatch_sound [OF before] obtain v where v: "?s = v @ t"
      "matches (Seq currency (Seq (Star ws) (Grp 2 number))) v" by blast
    from v(2) obtain c v' where "v = c @ v'" "matches currency c" by (auto simp: matches_Seq)
    with matches_currency [of c] obtain x v'' where "v = x # v''" "x = euro \<or> x = 69 \<or> x = 101"
      by auto
    with v(1) u d have False by auto
    then show ?thesis ..
  next
    case after
    from after obtain t2 g2 t3 g3 where a: "(t2, g2) \<in> set (rmatch (Grp 3 number) (?s, []))"
      and b: "(t3, g3) \<in> set (rmatch (Star ws) (t2, g2))"
      and c: "(t, m) \<in> set (rmatch currency (t3, g3))"
      unfolding rmatch_Seq_mem by blast
    from rmatch_Grp [OF a] obtain u' g0 where u': "?s = u' @ t2" "matches number u'"
      "g2 = (3, u') # g0" and g0: "(t2, g0) \<in> set (rmatch number (?s, []))" by blast
    from rmatch_no_grp [OF no_grp_parts(1) g0] have g0: "g0 = []" .
    from rmatch_no_grp [OF no_grp_parts(3) b] rmatch_no_grp [OF no_grp_parts(2) c]
    have m: "m = g2" by simp
    from rmatch_sound [OF b] obtain w where w: "t2 = w @ t3" "matches (Star ws) w" by blast
    from rmatch_sound [OF c] obtain cur where cur: "t3 = cur @ t" "matches currency cur" by blast
    from u'(1) w(1) cur(1) have "?s = u' @ w @ cur @ t" by simp
    from numeral_then_currency [OF shape matches_number_shape [OF u'(2)] matches_Star_ws [OF w(2)]
      cur(2) this]
    have "u' = u \<and> t = []" .
    with m u'(3) g0 show ?thesis by simp
  qed
qed

lemma matches_pattern_numeral:
  assumes "numeral_shape u"
  shows "matches pattern (u @ str '' EUR'')"
proof -
  have sp: "matches (Star ws) [32]"
    using m_StarS [OF m_Sym [of is_space 32] m_StarN] by (simp add: ws_def is_space_def)
  have eur: "matches currency [69, 85, 82]"
    using m_AltR [OF m_Seq [OF m_Sym m_Seq [OF m_Sym m_Seq [OF m_Sym m_Eps]]],
      of "\<lambda>c. py_lower c = py_lower 69" 69 "\<lambda>c. py_lower c = py_lower 85" 85
         "\<lambda>c. py_lower c = py_lower 82" 82 "lit euro"]
    by (simp add: currency_def lit_def)
  from m_Seq [OF m_Grp [OF numeral_shape_matches [OF assms], of 3] m_Seq [OF sp eur]]
  have "matches (Seq (Grp 3 number) (Seq (Star ws) currency)) (u @ [32, 69, 85, 82])" by simp
  from m_Seq [OF m_OptN m_AltR [OF this]] show ?thesis by (simp add: pattern_def)
qed

lemma finditer_empty: "finditer pattern [] = []"
  by (simp add: pattern_eval)

lemma finditer_numeral:
  assumes "numeral_shape u"
  shows "finditer pattern (u @ str '' EUR'') = [[(3, u)]]"
proof -
  let ?s = "u @ str '' EUR''"
  from rmatch_complete [OF matches_pattern_numeral [OF assms], of "[]" "[]"]
  obtain g' where "([], g') \<in> set (rmatch pattern (?s, []))" by auto
  then obtain x other where x: "rmatch pattern (?s, []) = x # other"
    by (cases "rmatch pattern (?s, [])") auto
  then have "x \<in> set (rmatch pattern (?s, []))" by simp
  with rmatch_pattern_numeral [OF assms, of "fst x" "snd x"] have "x = ([], [(3, u)])"
    by (cases x) simp
  with x show ?thesis
    by (subst finditer.simps) (simp add: finditer_empty)
qed


section \<open>The grammar of the numerals\<close>

text \<open>
  C3 as stated (within one match the group separator and the decimal separator are
  different characters, and \<open>1.234.56\<close> is not matched as an amount) fails: in
  \<open>1.234.56 EUR\<close> the numeral \<open>1.234.56\<close> is matched, with the point in both roles, and
  yields the amount 123456.
\<close>

theorem same_separator_counterexample:
  "finditer pattern (str ''1.234.56 EUR'') = [[(3, str ''1.234.56'')]] \<and>
   extract_amounts exact_ops (str ''1.234.56 EUR'') = Inr ([123456], [])"
proof -
  have c: "clean_num_str (str ''1.234.56'') = str ''123456''"
    by (simp add: clean_num_str_def replace_def)
  have f: "exact_float (str ''123456'') = Some 123456"
    by (simp add: float_eval)
  have "extract_amounts exact_ops (str ''1.234.56 EUR'') = Inr ([123456], [])"
    unfolding extract_amounts_def finditer_same
    using c f by (simp add: group_def py_or_def truthy_def exact_ops_simps)
  with finditer_same show ?thesis by simp
qed

text \<open>
  C3, amended: the numerals of the tokens that the currency-amount grammar accepts are
  the texts of 1 to 3 digits, then groups of a separator and 3 digits, then a separator
  and 2 digits, where every separator is a point or a comma, each chosen on its own; the
  group separator and the decimal separator need not differ. Every match of the pattern
  has such a numeral, and every such numeral in front of \<open>EUR\<close> is matched whole.
\<close>

theorem numeral_grammar:
  "(m \<in> set (finditer pattern content) \<longrightarrow>
      (\<exists>u. py_or (group m 2) (group m 3) = Some u \<and> numeral_shape u)) \<and>
   (numeral_shape u \<longrightarrow> finditer pattern (u @ str '' EUR'') = [[(3, u)]])"
  using match_groups [of m content] finditer_numeral [of u] by blast

theorem numeral_grammar_witness:
  "numeral_shape (str ''1,234,56'') \<and>
   finditer pattern (str ''1,234,56 EUR'') = [[(3, str ''1,234,56'')]] \<and>
   numeral_shape (str ''12.345,67'') \<and>
   finditer pattern (str ''12.345,67 EUR'') = [[(3, str ''12.345,67'')]]"
proof -
  have 1: "numeral_shape (str ''1,234,56'')"
    by (simp add: numeral_shape_def is_digit_def is_sep_def)
  have 2: "numeral_shape (str ''12.345,67'')"
    by (simp add: numeral_shape_def is_digit_def is_sep_def)
  from 1 2 numeral_grammar [of "[(3, str ''1,234,56'')]" "str ''1,234,56 EUR''" "str ''1,234,56''"]
    numeral_grammar [of "[(3, str ''12.345,67'')]" "str ''12.345,67 EUR''" "str ''12.345,67''"]
  show ?thesis by simp
qed

section \<open>The analysis of a text\<close>

text \<open>
  C7: the analysis is a function of the text, and for every text it returns; the two
  sequences of the result are in descending order and hold the extracted amounts with
  equal amounts in their order in the document (all of the extracted amounts when a
  positive amount was found, none otherwise); and the reconciliation of the sequences
  of a result gives the same result again.
\<close>

theorem analysis_sorted_idempotent:
  fixes fo :: "('a::linorder) float_ops"
  shows
  "\<exists>P D r. extract_amounts fo content = Inr (P, D) \<and>
     analyze_invoice_text fo content = Inr r \<and> r = reconcile fo P D \<and>
     sorted_wrt (\<ge>) (positive_amounts r) \<and> sorted_wrt (\<ge>) (discounts r) \<and>
     (P \<noteq> [] \<longrightarrow>
        (\<forall>k. filter (\<lambda>x. x = k) (positive_amounts r) = filter (\<lambda>x. x = k) P) \<and>
        (\<forall>k. filter (\<lambda>x. x = k) (discounts r) = filter (\<lambda>x. x = k) D)) \<and>
     (P = [] \<longrightarrow> positive_amounts r = [] \<and> discounts r = []) \<and>
     reconcile fo (positive_amounts r) (discounts r) = r"
proof -
  from extract_amounts_total [of fo content] obtain P D
    where e: "extract_amounts fo content = Inr (P, D)" by blast
  let ?r = "reconcile fo P D"
  have a: "analyze_invoice_text fo content = Inr ?r"
    by (simp add: analyze_invoice_text_def e)
  have seqs: "(P = [] \<longrightarrow> positive_amounts ?r = [] \<and> discounts ?r = []) \<and>
    (P \<noteq> [] \<longrightarrow> positive_amounts ?r = sort_reverse P \<and> discounts ?r = sort_reverse D)"
    by (simp add: reconcile_def Let_def)
  then have sorted: "sorted_wrt (\<ge>) (positive_amounts ?r) \<and> sorted_wrt (\<ge>) (discounts ?r)"
    by (cases "P = []") (simp_all add: sorted_sort_reverse)
  from seqs have stable: "P \<noteq> [] \<longrightarrow>
      (\<forall>k. filter (\<lambda>x. x = k) (positive_amounts ?r) = filter (\<lambda>x. x = k) P) \<and>
      (\<forall>k. filter (\<lambda>x. x = k) (discounts ?r) = filter (\<lambda>x. x = k) D)"
    by (simp add: filter_sort_reverse)
  have again: "reconcile fo (positive_amounts ?r) (discounts ?r) = ?r"
  proof (cases "P = []")
    case True
    then show ?thesis by (simp add: reconcile_def)
  next
    case False
    with seqs have "positive_amounts ?r = sort_reverse P" "discounts ?r = sort_reverse D"
      by simp_all
    moreover have "reconcile fo (sort_reverse P) (sort_reverse D) = reconcile fo P D"
      using False
      by (simp add: reconcile_def Let_def sort_reverse_Nil_iff
          sort_reverse_sorted [OF sorted_sort_reverse])
    ultimately show ?thesis by simp
  qed
  from e a seqs sorted stable again show ?thesis by blast
qed


lemma finditer_mixed:
  "finditer pattern (str ''90,00 EUR - 10,00 EUR and EUR 100,00'') =
     [[(3, str ''90,00'')], [(3, str ''10,00''), (1, str ''- '')], [(2, str ''100,00'')]]"
  by (simp add: pattern_eval)

lemma extract_mixed:
  "extract_amounts exact_ops (str ''90,00 EUR - 10,00 EUR and EUR 100,00'') = Inr ([90, 100], [10])"
proof -
  have c: "clean_num_str (str ''90,00'') = str ''90.00''" "clean_num_str (str ''10,00'') = str ''10.00''"
    "clean_num_str (str ''100,00'') = str ''100.00''"
    by (simp_all add: clean_num_str_def replace_def)
  have f: "exact_float (str ''90.00'') = Some 90" "exact_float (str ''10.00'') = Some 10"
    "exact_float (str ''100.00'') = Some 100"
    by (simp_all add: float_eval)
  show ?thesis
    unfolding extract_amounts_def finditer_mixed
    using c f by (simp add: group_def py_or_def truthy_def exact_ops_simps)
qed

theorem analysis_sorted_idempotent_witness:
  "analyze_invoice_text exact_ops (str ''90,00 EUR - 10,00 EUR and EUR 100,00'') =
     Inr (reconcile exact_ops [90, 100] [10]) \<and>
   positive_amounts (reconcile exact_ops [90, 100] [10]) = [100, 90] \<and>
   discounts (reconcile exact_ops [90, 100] [10]) = [10] \<and>
   reconcile exact_ops [100, 90] [10] = reconcile exact_ops [90, 100] [10]"
proof -
  have p: "positive_amounts (reconcile exact_ops [90, 100] [10]) = [100, 90]"
    and d: "discounts (reconcile exact_ops [90, 100] [10]) = [10]"
    by (simp_all add: reconcile_def Let_def sort_reverse_def)
  from analysis_sorted_idempotent [of exact_ops "str ''90,00 EUR - 10,00 EUR and EUR 100,00''"]
  show ?thesis unfolding extract_mixed using p d by auto
qed

text \<open>
  C8: for every text in which the extraction finds at least one discount and no positive
  amount, the result is NO_AMOUNT with no total and with both sequences empty: the
  discounts found are not in the result.
\<close>

theorem discounts_without_positive:
  fixes fo :: "('a::linorder) float_ops"
  assumes "extract_amounts fo content = Inr ([], D)" and "D \<noteq> []"
  shows "analyze_invoice_text fo content =
    Inr \<lparr>total = None, notes_txt = ''No amount found'', status = STATUS_NO_AMOUNT,
         positive_amounts = [], discounts = []\<rparr>"
  using assms by (simp add: analyze_invoice_text_def reconcile_def)

lemma finditer_discount_only: "finditer pattern (str ''- 5,00 EUR'') = [[(3, str ''5,00''), (1, str ''- '')]]"
  by (simp add: pattern_eval)

lemma extract_discount_only: "extract_amounts exact_ops (str ''- 5,00 EUR'') = Inr ([], [5])"
proof -
  have c: "clean_num_str (str ''5,00'') = str ''5.00''"
    by (simp add: clean_num_str_def replace_def)
  have f: "exact_float (str ''5.00'') = Some 5"
    by (simp add: float_eval)
  show ?thesis
    unfolding extract_amounts_def finditer_discount_only
    using c f by (simp add: group_def py_or_def truthy_def exact_ops_simps)
qed

theorem discounts_without_positive_witness:
  "extract_amounts exact_ops (str ''- 5,00 EUR'') = Inr ([], [5]) \<and>
   analyze_invoice_text exact_ops (str ''- 5,00 EUR'') =
    Inr \<lparr>total = None, notes_txt = ''No amount found'', status = STATUS_NO_AMOUNT,
         positive_amounts = [], discounts = []\<rparr>"
  using discounts_without_positive [OF extract_discount_only] extract_discount_only by simp

section \<open>The dialogue of the resolver\<close>

lemma split_nonempty: "split x s \<noteq> []"
  by (induction s) (auto split: list.splits)

lemma those_length: "those xs = Some ys \<Longrightarrow> length ys = length xs"
  by (induction xs arbitrary: ys) (auto split: option.splits)

lemma parse_choices_nonempty: "parse_choices s = Some cs \<Longrightarrow> cs \<noteq> []"
  using those_length [of "map (\<lambda>c. py_int (strip c)) (split (of_char CHR '','') s)" cs] split_nonempty [of "of_char CHR '',''" s]
  by (auto simp: parse_choices_def)

lemma select_discounts_eq:
  "select_discounts D cs acc =
     (if \<forall>c\<in>set cs. 1 \<le> c \<and> c \<le> int (length D) then Some (acc @ map (\<lambda>c. D ! nat (c - 1)) cs)
      else None)"
  by (induction cs arbitrary: acc) auto

lemmas input_eval = parse_choices_def py_int_def strip_def signed_def digits_val_def upper_def
  py_upper_def is_space_def is_digit_def

lemma parse_choices_letters: "parse_choices (str ''E'') = None" "parse_choices (str ''S'') = None"
  by (simp_all add: input_eval)

lemma resolver_loop_choices:
  assumes "parse_choices (upper (strip line)) = Some cs"
  shows "resolver_loop fo P D (line # inputs) =
    (case select_discounts D cs [] of
       None \<Rightarrow> resolver_loop fo P D inputs
     | Some sel \<Rightarrow>
         Inr (round2 fo (fsub fo (hd P) (fsum fo sel)),
              ''Manually applied discount(s) of '' @ join '', '' (map (fmt2 fo) sel) @ ''.''))"
proof -
  from assms parse_choices_letters have ne: "upper (strip line) \<noteq> str ''E''" "upper (strip line) \<noteq> str ''S''"
    by auto
  from parse_choices_nonempty [OF assms] have "cs \<noteq> []" .
  then have "\<And>sel. select_discounts D cs [] = Some sel \<Longrightarrow> sel \<noteq> []"
    by (auto simp: select_discounts_eq split: if_splits)
  with ne assms show ?thesis
    by (auto simp: Let_def split: option.splits)
qed

text \<open>
  C5: when the operator's line is a list of indices, separated by commas: if some index
  lies outside \<open>[1, len(discounts)]\<close>, the dialogue goes on with the next line as if the
  line had not been entered (nothing is applied); if every index is valid, the dialogue
  ends with the total \<open>round(max(positives) - sum(selected discounts), 2)\<close> and a note that
  names the selected discounts. The positive amounts are in descending order, as the
  analysis returns them, so that element 0 is the maximum.
\<close>

theorem discount_select:
  fixes fo :: "('a::linorder) float_ops"
  assumes "parse_choices (upper (strip line)) = Some cs"
    and "P \<noteq> []" and "sorted_wrt (\<ge>) P"
  shows "(if \<forall>c\<in>set cs. 1 \<le> c \<and> c \<le> int (length D)
          then interactive_discount_resolver fo P D (line # inputs) =
            Inr (round2 fo (fsub fo (Max (set P)) (fsum fo (map (\<lambda>c. D ! nat (c - 1)) cs))),
                 ''Manually applied discount(s) of '' @
                   join '', '' (map (\<lambda>c. fmt2 fo (D ! nat (c - 1))) cs) @ ''.'')
          else interactive_discount_resolver fo P D (line # inputs) =
            interactive_discount_resolver fo P D inputs)"
  using assms(2) hd_sorted_desc [OF assms(3,2)]
  by (simp add: interactive_discount_resolver_def resolver_loop_choices [OF assms(1)]
      select_discounts_eq comp_def del: resolver_loop.simps)

lemma exact_round2_int: "exact_round2 (of_int n) = of_int n"
  by (simp add: exact_round2_def round_half_even_def)

lemma exact_fmt2_values: "exact_fmt2 5 = ''5.00''" "exact_fmt2 3 = ''3.00''"
  by (simp_all add: exact_fmt2_def round_half_even_def)

theorem discount_select_witness:
  "parse_choices (upper (strip (str ''1,2''))) = Some [1, 2] \<and>
   interactive_discount_resolver exact_ops [100] [5, 3] [str ''1,2''] =
     Inr (92, ''Manually applied discount(s) of 5.00, 3.00.'') \<and>
   parse_choices (upper (strip (str ''1,3''))) = Some [1, 3] \<and>
   interactive_discount_resolver exact_ops [100] [5, 3] [str ''1,3'', str ''1,2''] =
     interactive_discount_resolver exact_ops [100] [5, 3] [str ''1,2'']"
proof -
  have 1: "parse_choices (upper (strip (str ''1,2''))) = Some [1, 2]"
    by (simp add: input_eval)
  have 2: "parse_choices (upper (strip (str ''1,3''))) = Some [1, 3]"
    by (simp add: input_eval)
  have r: "exact_round2 92 = 92" using exact_round2_int [of 92] by simp
  from discount_select [OF 1, where fo = exact_ops and P = "[100]" and D = "[5, 3]" and inputs = "[]"]
    discount_select [OF 2, where fo = exact_ops and P = "[100]" and D = "[5, 3]"
      and inputs = "[str ''1,2'']"] 1 2
  show ?thesis by (simp add: exact_ops_simps exact_fmt2_values r)
qed

text \<open>
  C9: in the selection of discounts an index may be repeated, and the discount is then
  subtracted once for each occurrence: for the line \<open>1,1\<close> over one discount \<open>d\<close> the
  total is \<open>round(max(positives) - sum([d, d]), 2)\<close>, and the note names \<open>d\<close> twice.
\<close>

theorem repeated_index_applied_twice:
  "interactive_discount_resolver fo (p # ps) [d] (str ''1,1'' # inputs) =
     Inr (round2 fo (fsub fo p (fsum fo [d, d])),
          ''Manually applied discount(s) of '' @ fmt2 fo d @ '', '' @ fmt2 fo d @ ''.'')"
proof -
  have "parse_choices (upper (strip (str ''1,1''))) = Some [1, 1]"
    by (simp add: input_eval)
  from resolver_loop_choices [OF this, of fo "p # ps" "[d]" inputs] show ?thesis
    by (simp add: interactive_discount_resolver_def del: resolver_loop.simps)
qed

theorem repeated_index_applied_twice_witness:
  "interactive_discount_resolver exact_ops [100] [5] [str ''1,1''] =
     Inr (90, ''Manually applied discount(s) of 5.00, 5.00.'')"
proof -
  have r: "exact_round2 90 = 90" using exact_round2_int [of 90] by simp
  from repeated_index_applied_twice [of exact_ops 100 "[]" 5 "[]"] show ?thesis
    by (simp add: exact_ops_simps exact_fmt2_values r)
qed

lemma set_strip: "set (strip s) \<subseteq> set s"
proof -
  have "set (strip s) \<subseteq> set (rev (dropWhile is_space s))"
    unfolding strip_def using set_dropWhileD [of _ is_space "rev (dropWhile is_space s)"] by auto
  also have "\<dots> \<subseteq> set s" using set_dropWhileD [of _ is_space s] by auto
  finally show ?thesis .
qed

lemma mantissa_nonneg: "mantissa m = Some v \<Longrightarrow> 0 \<le> v"
  by (auto simp: mantissa_def fraction_val_def split_at_def split: option.splits if_splits list.splits)

lemma exact_float_nonneg:
  assumes "exact_float s = Some v" and "of_char CHR ''-'' \<notin> set s"
  shows "0 \<le> v"
proof -
  from assms(2) set_strip [of s] have "of_char CHR ''-'' \<notin> set (strip s)" by blast
  then have "fst (signed (strip s)) = False"
    by (cases "strip s") (auto simp: signed_def)
  with assms(1) show ?thesis
    by (auto simp: exact_float_def split: prod.splits option.splits if_splits
        dest!: mantissa_nonneg)
qed

lemma clean_num_str_no_minus:
  assumes "numeral_shape u"
  shows "of_char CHR ''-'' \<notin> set (clean_num_str u)"
  using numeral_shape_chars [OF assms]
  by (auto simp: clean_num_str_def replace_def is_digit_def is_sep_def split: if_splits)

lemma extract_loop_nonneg:
  assumes "\<forall>m\<in>set ms. \<exists>u. py_or (group m 2) (group m 3) = Some u \<and> numeral_shape u"
    and "\<forall>a\<in>set (fst acc @ snd acc). 0 \<le> a"
    and "extract_loop exact_ops ms acc = Inr (P, D)"
  shows "\<forall>a\<in>set (P @ D). 0 \<le> a"
  using assms
proof (induction ms arbitrary: acc)
  case Nil
  then show ?case by (cases acc) auto
next
  case (Cons m ms)
  obtain P0 D0 where acc: "acc = (P0, D0)" by (cases acc)
  from Cons.prems(1) obtain u where u: "py_or (group m 2) (group m 3) = Some u" "numeral_shape u"
    by auto
  from Cons.prems(1) have rest: "\<forall>m\<in>set ms. \<exists>u. py_or (group m 2) (group m 3) = Some u \<and> numeral_shape u"
    by simp
  show ?case
  proof (cases "exact_float (clean_num_str u)")
    case None
    with Cons.prems(3) u acc have "extract_loop exact_ops ms (P0, D0) = Inr (P, D)"
      by (simp add: exact_ops_simps)
    from Cons.IH [OF rest _ this] Cons.prems(2) acc show ?thesis by simp
  next
    case (Some v)
    from exact_float_nonneg [OF Some clean_num_str_no_minus [OF u(2)]] have v: "0 \<le> v" .
    show ?thesis
    proof (cases "truthy (group m 1)")
      case True
      with Cons.prems(3) u acc Some have "extract_loop exact_ops ms (P0, D0 @ [v]) = Inr (P, D)"
        by (simp add: exact_ops_simps)
      from Cons.IH [OF rest _ this] Cons.prems(2) acc v show ?thesis by simp
    next
      case False
      with Cons.prems(3) u acc Some have "extract_loop exact_ops ms (P0 @ [v], D0) = Inr (P, D)"
        by (simp add: exact_ops_simps)
      from Cons.IH [OF rest _ this] Cons.prems(2) acc v show ?thesis by simp
    qed
  qed
qed

lemma extract_amounts_nonneg:
  assumes "extract_amounts exact_ops content = Inr (P, D)"
  shows "\<forall>a\<in>set (P @ D). 0 \<le> a"
proof (rule extract_loop_nonneg [where acc = "([], [])"])
  show "\<forall>m\<in>set (finditer pattern content).
      \<exists>u. py_or (group m 2) (group m 3) = Some u \<and> numeral_shape u"
    using match_groups by blast
  show "extract_loop exact_ops (finditer pattern content) ([], []) = Inr (P, D)"
    using assms by (simp add: extract_amounts_def)
qed simp

text \<open>
  C10: the manual entry takes whatever \<open>float\<close> reads, with no check of sign or range: a
  document that needs interaction gets the number entered as its final total. Every
  amount extracted from a text is non-negative (in exact decimal arithmetic), yet the
  entry \<open>-5\<close> makes the final total negative.
\<close>

theorem manual_entry_unchecked:
  "(status r = STATUS_NEEDS_INTERACTION \<and> positive_amounts r \<noteq> [] \<and>
      upper (strip choice) = str ''E'' \<and> py_float fo line = Some v \<longrightarrow>
      final_result fo r (choice # line # inputs) = Inr (Some v, ''Manually entered total.'')) \<and>
   (extract_amounts exact_ops content = Inr (P, D) \<longrightarrow> (\<forall>a\<in>set (P @ D). 0 \<le> a)) \<and>
   exact_float (str ''-5'') = Some (- 5)"
proof -
  have "exact_float (str ''-5'') = Some (- 5)"
    by (simp add: float_eval)
  with extract_amounts_nonneg [of content P D] show ?thesis
    by (auto simp: final_result_def interactive_discount_resolver_def Let_def)
qed

lemma finditer_needs:
  "finditer pattern (str ''100,00 EUR - 10,00 EUR'') =
     [[(3, str ''100,00'')], [(3, str ''10,00''), (1, str ''- '')]]"
  by (simp add: pattern_eval)

lemma extract_needs:
  "extract_amounts exact_ops (str ''100,00 EUR - 10,00 EUR'') = Inr ([100], [10])"
proof -
  have c: "clean_num_str (str ''10,00'') = str ''10.00''"
    "clean_num_str (str ''100,00'') = str ''100.00''"
    by (simp_all add: clean_num_str_def replace_def)
  have f: "exact_float (str ''10.00'') = Some 10" "exact_float (str ''100.00'') = Some 100"
    by (simp_all add: float_eval)
  show ?thesis
    unfolding extract_amounts_def finditer_needs
    using c f by (simp add: group_def py_or_def truthy_def exact_ops_simps)
qed

theorem manual_entry_unchecked_witness:
  "analyze_invoice_text exact_ops (str ''100,00 EUR - 10,00 EUR'') =
     Inr (reconcile exact_ops [100] [10]) \<and>
   status (reconcile exact_ops [100] [10]) = STATUS_NEEDS_INTERACTION \<and>
   positive_amounts (reconcile exact_ops [100] [10]) = [100] \<and>
   discounts (reconcile exact_ops [100] [10]) = [10] \<and>
   final_result exact_ops (reconcile exact_ops [100] [10]) [str ''e'', str ''-5''] =
     Inr (Some (- 5), ''Manually entered total.'') \<and>
   (- 5 :: rat) < 0"
proof -
  have s: "status (reconcile exact_ops [100] [10]) = STATUS_NEEDS_INTERACTION"
    and p: "positive_amounts (reconcile exact_ops [100] [10]) = [100]"
    and d: "discounts (reconcile exact_ops [100] [10]) = [10]"
    by (simp_all add: reconcile_def Let_def sort_reverse_def exact_ops_simps exact_round2_def
        round_half_even_def)
  have e: "upper (strip (str ''e'')) = str ''E''"
    by (simp add: input_eval)
  have a: "analyze_invoice_text exact_ops (str ''100,00 EUR - 10,00 EUR'') =
     Inr (reconcile exact_ops [100] [10])"
    unfolding analyze_invoice_text_def extract_needs by simp
  from manual_entry_unchecked [where fo = exact_ops and r = "reconcile exact_ops [100] [10]"
      and choice = "str ''e''" and line = "str ''-5''" and v = "- 5" and inputs = "[]"]
    s p d e a
  show ?thesis
    by (simp add: exact_ops_simps)
qed

section \<open>The groups of duplicates\<close>

lemma map_of_add_hash:
  "map_of (add_hash h f hs) k =
     (if k = h then Some ((case map_of hs h of None \<Rightarrow> [] | Some fs \<Rightarrow> fs) @ [f]) else map_of hs k)"
  by (induction hs) auto

lemma keys_add_hash: "set (map fst (add_hash h f hs)) = insert h (set (map fst hs))"
proof (induction hs)
  case Nil
  show ?case by simp
next
  case (Cons x hs)
  obtain k fs where x: "x = (k, fs)" by (cases x)
  show ?case
  proof (cases "k = h")
    case True
    with x show ?thesis by auto
  next
    case False
    with x have "set (map fst (add_hash h f (x # hs))) = insert k (set (map fst (add_hash h f hs)))"
      by simp
    also have "\<dots> = insert k (insert h (set (map fst hs)))" by (simp only: Cons.IH)
    finally show ?thesis using x by auto
  qed
qed

lemma distinct_add_hash: "distinct (map fst hs) \<Longrightarrow> distinct (map fst (add_hash h f hs))"
proof (induction hs)
  case Nil
  show ?case by simp
next
  case (Cons x hs)
  obtain k fs where x: "x = (k, fs)" by (cases x)
  show ?case
  proof (cases "k = h")
    case True
    with Cons.prems x show ?thesis by simp
  next
    case False
    from Cons.prems x have k: "k \<notin> set (map fst hs)" and d: "distinct (map fst hs)" by simp_all
    from k False keys_add_hash [of h f hs] have "k \<notin> set (map fst (add_hash h f hs))" by simp
    with Cons.IH [OF d] False x show ?thesis by simp
  qed
qed

lemma distinct_build_hashes:
  "distinct (map fst hs) \<Longrightarrow> distinct (map fst (build_hashes sha256 entries hs))"
  by (induction entries arbitrary: hs) (auto simp: distinct_add_hash)

lemma map_of_build_hashes:
  "map_of (build_hashes sha256 entries hs) k =
     (let new = map fst (filter (\<lambda>(n, c). endswith n (str ''.txt'') \<and> sha256 c = k) entries)
      in if new = [] then map_of hs k
         else Some ((case map_of hs k of None \<Rightarrow> [] | Some fs \<Rightarrow> fs) @ new))"
proof (induction entries arbitrary: hs)
  case Nil
  show ?case by simp
next
  case (Cons e entries)
  obtain n c where e: "e = (n, c)" by (cases e)
  show ?case
    unfolding e by (simp add: Cons.IH map_of_add_hash Let_def del: map_of_eq_Some_iff)
qed

lemma build_hashes_groups:
  "(h, fs) \<in> set (build_hashes sha256 entries []) \<longleftrightarrow>
     fs = documents_with_digest sha256 entries h \<and> fs \<noteq> []"
proof -
  have d: "distinct (map fst (build_hashes sha256 entries []))"
    by (simp add: distinct_build_hashes)
  have "(h, fs) \<in> set (build_hashes sha256 entries []) \<longleftrightarrow>
      map_of (build_hashes sha256 entries []) h = Some fs"
    using map_of_eq_Some_iff [OF d] by simp
  also have "\<dots> \<longleftrightarrow> fs = documents_with_digest sha256 entries h \<and> fs \<noteq> []"
    by (auto simp: map_of_build_hashes documents_with_digest_def Let_def
        simp del: map_of_eq_Some_iff)
  finally show ?thesis .
qed

lemma duplicate_groups_groups:
  "(h, fs) \<in> set (duplicate_groups sha256 entries) \<longleftrightarrow>
     fs = documents_with_digest sha256 entries h \<and> 2 \<le> length fs"
  unfolding duplicate_groups_def by (auto simp: build_hashes_groups)

lemma documents_with_digest_mem:
  "n \<in> set (documents_with_digest sha256 entries h) \<longleftrightarrow>
     (\<exists>c. (n, c) \<in> set entries \<and> endswith n (str ''.txt'') \<and> sha256 c = h)"
  by (force simp: documents_with_digest_def)

text \<open>
  C6: the documents of a batch (the entries named \<open>*.txt\<close>) are grouped by the digest of
  the bytes of their text. The dictionary has one group for every digest that occurs, and
  the group of a digest holds exactly the documents whose bytes have that digest, in the
  order of the directory, so that two documents with the same bytes are in the same
  group whatever their file names, and no document is in the group of other bytes'
  digest. The groups selected for the report are exactly the groups with at least 2
  file names; a group of size 1 is never selected.
\<close>

theorem duplicates_grouped:
  "distinct (map fst (build_hashes sha256 entries [])) \<and>
   ((h, fs) \<in> set (build_hashes sha256 entries []) \<longleftrightarrow>
      fs = documents_with_digest sha256 entries h \<and> fs \<noteq> []) \<and>
   ((h, fs) \<in> set (duplicate_groups sha256 entries) \<longleftrightarrow>
      fs = documents_with_digest sha256 entries h \<and> 2 \<le> length fs) \<and>
   (n \<in> set (documents_with_digest sha256 entries h) \<longleftrightarrow>
      (\<exists>c. (n, c) \<in> set entries \<and> endswith n (str ''.txt'') \<and> sha256 c = h)) \<and>
   ((n1, c) \<in> set entries \<and> (n2, c) \<in> set entries \<and>
      endswith n1 (str ''.txt'') \<and> endswith n2 (str ''.txt'') \<longrightarrow>
      (sha256 c, documents_with_digest sha256 entries (sha256 c))
         \<in> set (build_hashes sha256 entries []) \<and>
      n1 \<in> set (documents_with_digest sha256 entries (sha256 c)) \<and>
      n2 \<in> set (documents_with_digest sha256 entries (sha256 c)) \<and>
      (n1 \<noteq> n2 \<longrightarrow>
         (sha256 c, documents_with_digest sha256 entries (sha256 c))
            \<in> set (duplicate_groups sha256 entries)))"
proof (intro conjI impI)
  show "distinct (map fst (build_hashes sha256 entries []))"
    by (simp add: distinct_build_hashes)
  show "(h, fs) \<in> set (build_hashes sha256 entries []) \<longleftrightarrow>
      fs = documents_with_digest sha256 entries h \<and> fs \<noteq> []"
    by (rule build_hashes_groups)
  show "(h, fs) \<in> set (duplicate_groups sha256 entries) \<longleftrightarrow>
      fs = documents_with_digest sha256 entries h \<and> 2 \<le> length fs"
    by (rule duplicate_groups_groups)
  show "n \<in> set (documents_with_digest sha256 entries h) \<longleftrightarrow>
      (\<exists>c. (n, c) \<in> set entries \<and> endswith n (str ''.txt'') \<and> sha256 c = h)"
    by (rule documents_with_digest_mem)
next
  assume a: "(n1, c) \<in> set entries \<and> (n2, c) \<in> set entries \<and>
      endswith n1 (str ''.txt'') \<and> endswith n2 (str ''.txt'')"
  let ?fs = "documents_with_digest sha256 entries (sha256 c)"
  from a show n1: "n1 \<in> set ?fs" and n2: "n2 \<in> set ?fs"
    by (auto simp: documents_with_digest_mem)
  from n1 have "?fs \<noteq> []" by (metis empty_iff empty_set)
  then show "(sha256 c, ?fs) \<in> set (build_hashes sha256 entries [])"
    by (simp add: build_hashes_groups)
  {
    assume "n1 \<noteq> n2"
    then have "card {n1, n2} = 2" by simp
    moreover from n1 n2 have "card {n1, n2} \<le> card (set ?fs)" by (intro card_mono) auto
    moreover have "card (set ?fs) \<le> length ?fs" by (rule card_length)
    ultimately have "2 \<le> length ?fs" by linarith
    then show "(sha256 c, ?fs) \<in> set (duplicate_groups sha256 entries)"
      by (simp add: duplicate_groups_groups)
  }
qed

theorem duplicates_grouped_witness:
  "build_hashes (\<lambda>b::nat. b)
     [(str ''a.txt'', 1), (str ''b.txt'', 2), (str ''c.txt'', 1), (str ''d.pdf'', 2)] [] =
     [(1, [str ''a.txt'', str ''c.txt'']), (2, [str ''b.txt''])] \<and>
   duplicate_groups (\<lambda>b::nat. b)
     [(str ''a.txt'', 1), (str ''b.txt'', 2), (str ''c.txt'', 1), (str ''d.pdf'', 2)] =
     [(1, [str ''a.txt'', str ''c.txt''])] \<and>
   documents_with_digest (\<lambda>b::nat. b)
     [(str ''a.txt'', 1), (str ''b.txt'', 2), (str ''c.txt'', 1), (str ''d.pdf'', 2)] 1 =
     [str ''a.txt'', str ''c.txt''] \<and>
   (1, [str ''a.txt'', str ''c.txt'']) \<in> set (duplicate_groups (\<lambda>b::nat. b)
     [(str ''a.txt'', 1), (str ''b.txt'', 2), (str ''c.txt'', 1), (str ''d.pdf'', 2)]) \<and>
   (2, [str ''b.txt'']) \<notin> set (duplicate_groups (\<lambda>b::nat. b)
     [(str ''a.txt'', 1), (str ''b.txt'', 2), (str ''c.txt'', 1), (str ''d.pdf'', 2)])"
proof -
  let ?es = "[(str ''a.txt'', 1::nat), (str ''b.txt'', 2), (str ''c.txt'', 1), (str ''d.pdf'', 2)]"
  have b: "build_hashes (\<lambda>b::nat. b) ?es [] =
     [(1, [str ''a.txt'', str ''c.txt'']), (2, [str ''b.txt''])]"
    by (simp add: endswith_def)
  have g: "duplicate_groups (\<lambda>b::nat. b) ?es = [(1, [str ''a.txt'', str ''c.txt''])]"
    unfolding duplicate_groups_def b by simp
  have d: "documents_with_digest (\<lambda>b::nat. b) ?es 1 = [str ''a.txt'', str ''c.txt'']"
    by (simp add: documents_with_digest_def endswith_def)
  have e: "endswith (str ''a.txt'') (str ''.txt'')" "endswith (str ''c.txt'') (str ''.txt'')"
    by (simp_all add: endswith_def)
  from duplicates_grouped [of "\<lambda>b::nat. b" ?es 2 "[str ''b.txt'']" _ "str ''a.txt''" 1
      "str ''c.txt''"]
    e d
  have "(1, [str ''a.txt'', str ''c.txt'']) \<in> set (duplicate_groups (\<lambda>b::nat. b) ?es)"
    and "(2, [str ''b.txt'']) \<notin> set (duplicate_groups (\<lambda>b::nat. b) ?es)"
    by simp_all
  with b g d show ?thesis by simp
qed

end
